theory Spec2Isabelle
  imports Main
begin

section \<open>The versioned store (internal/store/store.go)\<close>

text \<open>
  A \<open>time.Time\<close> is used by the store only through \<open>Before\<close>, which compares two
  instants. Every timestamp that reaches the store went through \<open>UTC()\<close> or through
  JSON, so it carries no monotonic clock reading and \<open>Before\<close> is the order of instants
  on the time line. An instant is modelled as an integer count of nanoseconds, the zero
  \<open>time.Time\<close> being \<open>0\<close>.
\<close>

type_synonym Time = int

definition Before :: "Time \<Rightarrow> Time \<Rightarrow> bool" where
  "Before t u = (t < u)"

text \<open>
  \<open>api.PutRequest\<close>, \<open>store.Entry\<close> and \<open>repl.ReplicateRequest\<close> have the fields
  \<open>Key\<close> and \<open>Value\<close> in common, the last two also \<open>TS\<close>. The three records extend
  one another so that each keeps the field names of its struct.
\<close>

record PutRequest =
  Key :: string
  Value :: string

record Entry = PutRequest +
  TS :: Time

record ReplicateRequest = Entry +
  ReqID :: string

text \<open>
  \<open>KV.data\<close> is a \<open>map[string]Entry\<close>. The mutex makes every method of \<open>KV\<close> atomic,
  so a method is a function from the map before the call to the map after it.
\<close>

type_synonym KV = "string \<rightharpoonup> Entry"

definition New :: KV where
  "New = Map.empty"

definition Upsert :: "KV \<Rightarrow> Entry \<Rightarrow> KV" where
  "Upsert kv e =
     (case kv (Key e) of
        None \<Rightarrow> kv(Key e \<mapsto> e)
      | Some cur \<Rightarrow> if \<not> Before (TS e) (TS cur) then kv(Key e \<mapsto> e) else kv)"

text \<open>A missing key reads as the zero \<open>Entry\<close> and \<open>False\<close>.\<close>

definition Get :: "KV \<Rightarrow> string \<Rightarrow> Entry \<times> bool" where
  "Get kv key =
     (case kv key of
        None \<Rightarrow> (\<lparr>Key = [], Value = [], TS = 0\<rparr>, False)
      | Some e \<Rightarrow> (e, True))"

definition Snapshot :: "KV \<Rightarrow> KV" where
  "Snapshot kv = kv"


section \<open>The node configuration (internal/cluster/node.go)\<close>

text \<open>\<open>Role\<close> and \<open>Mode\<close> are string types: the flags of the command line are cast to them unchecked.\<close>

type_synonym Role = string
type_synonym Mode = string

definition Leader :: Role where "Leader = ''leader''"
definition Follower :: Role where "Follower = ''follower''"
definition Sync :: Mode where "Sync = ''sync''"
definition Async :: Mode where "Async = ''async''"

record NodeConfig =
  ID :: string
  Role :: Role
  Mode :: Mode
  Port :: int
  Peers :: "string list"
  BlockPeers :: "string \<rightharpoonup> bool"

text \<open>
  \<open>BlockPeers[url]\<close>: reading a \<open>map[string]bool\<close> at a missing key gives \<open>false\<close>.
\<close>

definition blockedAt :: "(string \<rightharpoonup> bool) \<Rightarrow> string \<Rightarrow> bool" where
  "blockedAt m url = (case m url of None \<Rightarrow> False | Some b \<Rightarrow> b)"

subsection \<open>NormalizePeers\<close>

text \<open>
  \<open>strings.TrimSpace\<close> strips the runes with \<open>unicode.IsSpace\<close> from both ends. A Go
  string is a sequence of bytes read as UTF-8, so the runes are matched by their
  encodings: the six bytes of Go's \<open>asciiSpace\<close> table (tab, line feed, vertical tab, form
  feed, carriage return, space), then U+0085 and U+00A0, U+1680, U+2000 to U+200A, U+2028,
  U+2029, U+202F, U+205F and U+3000. No encoding is the beginning or the end of another,
  and a byte sequence that is not valid UTF-8 decodes to U+FFFD, which is not white space,
  so a string begins (ends) with a white-space rune exactly when it begins (ends) with one
  of these encodings.
\<close>

definition spaceRunes :: "string list" where
  "spaceRunes =
     [[CHR 0x09], [CHR 0x0A], [CHR 0x0B], [CHR 0x0C], [CHR 0x0D], [CHR 0x20],
      [CHR 0xC2, CHR 0x85], [CHR 0xC2, CHR 0xA0],
      [CHR 0xE1, CHR 0x9A, CHR 0x80],
      [CHR 0xE2, CHR 0x80, CHR 0x80], [CHR 0xE2, CHR 0x80, CHR 0x81],
      [CHR 0xE2, CHR 0x80, CHR 0x82], [CHR 0xE2, CHR 0x80, CHR 0x83],
      [CHR 0xE2, CHR 0x80, CHR 0x84], [CHR 0xE2, CHR 0x80, CHR 0x85],
      [CHR 0xE2, CHR 0x80, CHR 0x86], [CHR 0xE2, CHR 0x80, CHR 0x87],
      [CHR 0xE2, CHR 0x80, CHR 0x88], [CHR 0xE2, CHR 0x80, CHR 0x89],
      [CHR 0xE2, CHR 0x80, CHR 0x8A],
      [CHR 0xE2, CHR 0x80, CHR 0xA8], [CHR 0xE2, CHR 0x80, CHR 0xA9],
      [CHR 0xE2, CHR 0x80, CHR 0xAF],
      [CHR 0xE2, CHR 0x81, CHR 0x9F],
      [CHR 0xE3, CHR 0x80, CHR 0x80]]"

text \<open>
  The length of the first of \<open>pats\<close> that \<open>s\<close> begins with, and \<open>0\<close> when it begins with
  none; \<open>strip\<close> removes such beginnings until there is none.
\<close>

definition matchLen :: "string list \<Rightarrow> string \<Rightarrow> nat" where
  "matchLen pats s =
     (case find (\<lambda>e. take (length e) s = e) pats of None \<Rightarrow> 0 | Some e \<Rightarrow> length e)"

function strip :: "string list \<Rightarrow> string \<Rightarrow> string" where
  "strip pats s = (if matchLen pats s = 0 then s else strip pats (drop (matchLen pats s) s))"
  by pat_completeness auto
termination
proof (relation "measure (\<lambda>(pats, s). length s)")
  show "wf (measure (\<lambda>(pats, s). length s))" by simp
next
  fix pats :: "string list" and s :: string
  assume pos: "matchLen pats s \<noteq> 0"
  have "matchLen pats s \<le> length s"
  proof (cases "find (\<lambda>e. take (length e) s = e) pats")
    case None
    then show ?thesis by (simp add: matchLen_def)
  next
    case (Some e)
    then have "take (length e) s = e" by (auto simp: find_Some_iff)
    then have "length (take (length e) s) = length e" by simp
    then have "length e \<le> length s" by simp
    then show ?thesis using Some by (simp add: matchLen_def)
  qed
  then show "((pats, drop (matchLen pats s) s), (pats, s)) \<in> measure (\<lambda>(pats, s). length s)"
    using pos by simp
qed

declare strip.simps [simp del]

text \<open>First the white space at the beginning goes, then the white space at the end.\<close>

definition TrimSpace :: "string \<Rightarrow> string" where
  "TrimSpace s = rev (strip (map rev spaceRunes) (rev (strip spaceRunes s)))"

text \<open>A string that is empty or made of white-space runes only.\<close>

definition spaceOnly :: "string \<Rightarrow> bool" where
  "spaceOnly s = (strip spaceRunes s = [])"

text \<open>
  \<open>strings.Split\<close> with a separator of one byte: the pieces between the separators, one
  more than there are separators.
\<close>

fun Split :: "string \<Rightarrow> char \<Rightarrow> string list" where
  "Split [] sep = [[]]"
| "Split (c # cs) sep =
     (if c = sep then [] # Split cs sep
      else case Split cs sep of
             [] \<Rightarrow> [[c]]
           | part # parts \<Rightarrow> (c # part) # parts)"

text \<open>
  \<open>url.Parse\<close> belongs to Go's standard library, not to this repository, so
  \<open>NormalizePeers\<close> takes it as the parameter \<open>parse\<close>: \<open>None\<close> when \<open>Parse\<close> returns an
  error, and otherwise the fields of the \<open>*url.URL\<close> that \<open>NormalizePeers\<close> reads, \<open>Scheme\<close>
  and \<open>Host\<close>, with what its method \<open>String()\<close> returns.
\<close>

record URL =
  Scheme :: string
  Host :: string
  String :: string

text \<open>The \<open>for\<close> loop over \<open>parts\<close>; \<open>out\<close> is the slice built so far.\<close>

fun normalizeLoop ::
  "(string \<Rightarrow> URL option) \<Rightarrow> string list \<Rightarrow> string list \<Rightarrow> string list" where
  "normalizeLoop parse [] out = out"
| "normalizeLoop parse (part # parts) out =
     (let p = TrimSpace part in
      if p = [] then normalizeLoop parse parts out
      else case parse p of
             Some u \<Rightarrow>
               if Scheme u \<noteq> [] \<and> Host u \<noteq> [] then normalizeLoop parse parts (out @ [String u])
               else normalizeLoop parse parts (out @ [''http://'' @ p])
           | None \<Rightarrow> normalizeLoop parse parts (out @ [''http://'' @ p]))"

definition NormalizePeers :: "(string \<Rightarrow> URL option) \<Rightarrow> string \<Rightarrow> string list" where
  "NormalizePeers parse peersCSV =
     (if TrimSpace peersCSV = [] then []
      else normalizeLoop parse (Split peersCSV CHR '','') [])"

text \<open>
  What the loop appends for one trimmed, non-empty part.
\<close>

definition normalizeOne :: "(string \<Rightarrow> URL option) \<Rightarrow> string \<Rightarrow> string" where
  "normalizeOne parse p =
     (case parse p of
        Some u \<Rightarrow> if Scheme u \<noteq> [] \<and> Host u \<noteq> [] then String u else ''http://'' @ p
      | None \<Rightarrow> ''http://'' @ p)"

text \<open>
  The bare form \<open>host:port\<close> of the specification: a non-empty host of letters, digits,
  dots and hyphens, a colon, and a non-empty port of digits.
\<close>

definition isDigit :: "char \<Rightarrow> bool" where
  "isDigit c = (48 \<le> (of_char c :: nat) \<and> (of_char c :: nat) \<le> 57)"

definition isLetter :: "char \<Rightarrow> bool" where
  "isLetter c = (65 \<le> (of_char c :: nat) \<and> (of_char c :: nat) \<le> 90 \<or>
                 97 \<le> (of_char c :: nat) \<and> (of_char c :: nat) \<le> 122)"

definition bare_host_port :: "string \<Rightarrow> bool" where
  "bare_host_port p =
     (let host = takeWhile (\<lambda>c. c \<noteq> CHR '':'') p;
          rest = dropWhile (\<lambda>c. c \<noteq> CHR '':'') p
      in host \<noteq> [] \<and>
         list_all (\<lambda>c. isLetter c \<or> isDigit c \<or> c = CHR ''.'' \<or> c = CHR ''-'') host \<and>
         rest \<noteq> [] \<and> tl rest \<noteq> [] \<and> list_all isDigit (tl rest))"

text \<open>
  What \<open>url.Parse\<close> returns on the addresses of the examples below: it writes the scheme
  in lower case and leaves the host as it is, \<open>String()\<close> puts \<open>://\<close> between the two, and
  in a bare \<open>host:port\<close> that begins with a letter it finds a scheme and an opaque part but
  no host. The examples use no other address.
\<close>

definition parseDemo :: "string \<Rightarrow> URL option" where
  "parseDemo p =
     (if p = ''HTTP://F2:8082'' then
        Some \<lparr>Scheme = ''http'', Host = ''F2:8082'', String = ''http://F2:8082''\<rparr>
      else if p = ''http://f2:8082'' then
        Some \<lparr>Scheme = ''http'', Host = ''f2:8082'', String = ''http://f2:8082''\<rparr>
      else if p = ''f1:8081'' then
        Some \<lparr>Scheme = ''f1'', Host = [], String = ''f1:8081''\<rparr>
      else None)"


section \<open>The HTTP handlers (internal/api/http.go)\<close>

text \<open>
  A request as a handler reads it: its method, its query parameters (\<open>Query().Get\<close>
  gives the empty string for a parameter that is not there) and the outcome of decoding
  its JSON body into the handler's request struct, \<open>None\<close> when \<open>Decode\<close> returns an
  error.
\<close>

record 'b Request =
  Method :: string
  Query :: "string \<Rightarrow> string"
  Body :: "'b option"

definition MethodPost :: string where "MethodPost = ''POST''"
definition MethodGet :: string where "MethodGet = ''GET''"

definition StatusOK :: nat where "StatusOK = 200"
definition StatusBadRequest :: nat where "StatusBadRequest = 400"
definition StatusForbidden :: nat where "StatusForbidden = 403"
definition StatusNotFound :: nat where "StatusNotFound = 404"
definition StatusMethodNotAllowed :: nat where "StatusMethodNotAllowed = 405"

text \<open>
  The JSON payloads: \<open>ErrorResponse{Error}\<close>, \<open>PutResponse{Status, Mode, ReqID}\<close>,
  \<open>ReplicateResponse{Status}\<close>, an \<open>Entry\<close> and the map of blocked peers.
\<close>

datatype payload =
    ErrorResponse string
  | PutResponse string Mode string
  | ReplicateResponse string
  | EntryPayload Entry
  | BlockedPayload "string \<rightharpoonup> bool"

record Response =
  StatusCode :: nat
  Payload :: payload

definition respondJSON :: "nat \<Rightarrow> payload \<Rightarrow> Response" where
  "respondJSON code p = \<lparr>StatusCode = code, Payload = p\<rparr>"

definition respondError :: "nat \<Rightarrow> string \<Rightarrow> Response" where
  "respondError code message = respondJSON code (ErrorResponse message)"

text \<open>
  \<open>handlePut\<close> up to its answer. \<open>newID\<close> is what \<open>uuid.NewString()\<close> returns and \<open>now\<close>
  what \<open>time.Now().UTC()\<close> returns. The result is the response, the store after the
  call and the request handed to \<open>broadcastReplication\<close> (\<open>None\<close> when the handler
  returns before it). Both branches on the mode write the same response; when it is
  written, before or after the broadcast, is the matter of the broadcast's model below.
\<close>

definition handlePut ::
  "NodeConfig \<Rightarrow> string \<Rightarrow> Time \<Rightarrow> KV \<Rightarrow> PutRequest Request \<Rightarrow>
     Response \<times> KV \<times> ReplicateRequest option" where
  "handlePut cfg newID now kv r =
     (if Method r \<noteq> MethodPost then
        (respondError StatusMethodNotAllowed ''method not allowed'', kv, None)
      else if Role cfg \<noteq> Leader then
        (respondError StatusForbidden ''not a leader'', kv, None)
      else case Body r of
        None \<Rightarrow> (respondError StatusBadRequest ''invalid request body'', kv, None)
      | Some req \<Rightarrow>
          if Key req = [] then
            (respondError StatusBadRequest ''key cannot be empty'', kv, None)
          else
            let reqID = newID;
                entry = \<lparr>Key = Key req, Value = Value req, TS = now\<rparr>;
                kv' = Upsert kv entry;
                replReq = \<lparr>Key = Key entry, Value = Value entry, TS = TS entry, ReqID = reqID\<rparr>
            in (respondJSON StatusOK (PutResponse ''ok'' (Mode cfg) reqID), kv', Some replReq))"

definition handleGet :: "KV \<Rightarrow> 'b Request \<Rightarrow> Response" where
  "handleGet kv r =
     (if Method r \<noteq> MethodGet then respondError StatusMethodNotAllowed ''method not allowed''
      else
        let key = Query r ''key'' in
        if key = [] then respondError StatusBadRequest ''missing key query param''
        else
          let (entry, ok) = Get kv key in
          if \<not> ok then respondError StatusNotFound ''key not found''
          else respondJSON StatusOK (EntryPayload entry))"

definition handleReplicate ::
  "NodeConfig \<Rightarrow> KV \<Rightarrow> ReplicateRequest Request \<Rightarrow> Response \<times> KV" where
  "handleReplicate cfg kv r =
     (if Method r \<noteq> MethodPost then
        (respondError StatusMethodNotAllowed ''method not allowed'', kv)
      else if Role cfg = Leader then
        (respondError StatusForbidden ''leader cannot replicate to itself'', kv)
      else case Body r of
        None \<Rightarrow> (respondError StatusBadRequest ''invalid replication body'', kv)
      | Some req \<Rightarrow>
          let entry = \<lparr>Key = Key req, Value = Value req, TS = TS req\<rparr>
          in (respondJSON StatusOK (ReplicateResponse ''ok''), Upsert kv entry))"

text \<open>
  \<open>handlePartition\<close>: the block is applied before the unblock, both under the server's
  mutex. The result is the response and the configuration after the call.
\<close>

definition handlePartition :: "NodeConfig \<Rightarrow> 'b Request \<Rightarrow> Response \<times> NodeConfig" where
  "handlePartition cfg r =
     (if Method r \<noteq> MethodPost then
        (respondError StatusMethodNotAllowed ''method not allowed'', cfg)
      else
        let blockPeer = Query r ''block'';
            unblockPeer = Query r ''unblock'';
            cfg1 = (if blockPeer \<noteq> [] then
                      cfg\<lparr>BlockPeers := (BlockPeers cfg)(blockPeer \<mapsto> True)\<rparr>
                    else cfg);
            cfg2 = (if unblockPeer \<noteq> [] then
                      cfg1\<lparr>BlockPeers := (BlockPeers cfg1)(unblockPeer := None)\<rparr>
                    else cfg1)
        in (respondJSON StatusOK (BlockedPayload (BlockPeers cfg2)), cfg2))"


section \<open>The broadcast (broadcastReplication and the end of handlePut)\<close>

text \<open>
  \<open>broadcastReplication\<close> starts one goroutine for each entry of \<open>Peers\<close> and, in sync
  mode, waits for all of them on a \<open>sync.WaitGroup\<close>; meanwhile \<open>handlePartition\<close> may
  change \<open>BlockPeers\<close>. The model is an interleaving of atomic steps. A goroutine is at
  one of four places: before its read of \<open>BlockPeers[url]\<close> under the mutex
  (\<open>G_Check\<close>), after it with the value in its local \<open>isBlocked\<close> (\<open>G_Decide\<close>), after
  the return of \<open>repl.PostReplicate\<close> (\<open>G_Posted\<close>, with whether \<open>err\<close> is \<open>nil\<close>), and
  after its return, when the deferred \<open>wg.Done()\<close> has run (\<open>G_Done\<close>, with what it
  logged).
\<close>

datatype outcome = Skipped | Replicated | Failed

datatype gpc = G_Check | G_Decide | G_Posted bool | G_Done outcome

record goroutine =
  url :: string
  isBlocked :: bool
  pc :: gpc

text \<open>
  The caller of the goroutines is in its \<open>for\<close> loop (\<open>B_Loop\<close>; the goroutines started
  so far are \<open>tasks\<close>), in \<open>wg.Wait()\<close> (\<open>B_Wait\<close>), or has returned (\<open>B_Returned\<close>).
  \<open>blocked\<close> is \<open>cfg.BlockPeers\<close>, the one field of the configuration that changes.
  \<open>delivered\<close> lists the calls of \<open>repl.PostReplicate\<close> in the order they were made, with
  their arguments \<open>url\<close> and \<open>req\<close> and, to tell apart two entries of \<open>Peers\<close> with the same
  address, the index of the calling goroutine. \<open>responded\<close> is the response \<open>handlePut\<close>
  has written, if it has.
\<close>

datatype bpc = B_Loop | B_Wait | B_Returned

record bstate =
  tasks :: "goroutine list"
  wg :: nat
  bpc :: bpc
  blocked :: "string \<rightharpoonup> bool"
  delivered :: "(nat \<times> string \<times> ReplicateRequest) list"
  responded :: "Response option"

text \<open>
  The atomic steps. \<open>Spawn\<close>: one turn of the loop, \<open>wg.Add(1)\<close> and the \<open>go\<close> statement.
  \<open>LoopExit\<close>: the test of the mode after the loop. \<open>WaitReturn\<close>: the return of
  \<open>wg.Wait()\<close>, possible when the counter is zero. \<open>Check i\<close>, \<open>Skip i\<close>, \<open>Post i ok\<close>,
  \<open>Finish i\<close>: the steps of goroutine \<open>i\<close>; \<open>ok\<close> says whether \<open>PostReplicate\<close> returned
  \<open>nil\<close>, which the network and the peer decide (the client's timeout makes the call
  return). \<open>Respond\<close>: \<open>handlePut\<close> writing its response, in async mode at once (the
  broadcast is itself a goroutine), otherwise after the broadcast has returned.
  \<open>Partition b u\<close>: a call of \<open>handlePartition\<close> with \<open>block=b\<close> and \<open>unblock=u\<close> from
  another request.
\<close>

datatype event =
    Spawn
  | LoopExit
  | WaitReturn
  | Check nat
  | Skip nat
  | Post nat bool
  | Finish nat
  | Respond
  | Partition string string

definition init :: "NodeConfig \<Rightarrow> bstate" where
  "init cfg = \<lparr>tasks = [], wg = 0, bpc = B_Loop, blocked = BlockPeers cfg,
               delivered = [], responded = None\<rparr>"

text \<open>
  \<open>exec cfg req e s\<close> is the state after the step \<open>e\<close> in the state \<open>s\<close>, and \<open>None\<close>
  when the step cannot be taken in \<open>s\<close>.
\<close>

fun exec :: "NodeConfig \<Rightarrow> ReplicateRequest \<Rightarrow> event \<Rightarrow> bstate \<Rightarrow> bstate option" where
  "exec cfg req Spawn s =
     (if bpc s = B_Loop \<and> length (tasks s) < length (Peers cfg) then
        Some (s\<lparr>wg := wg s + 1,
                tasks := tasks s @ [\<lparr>url = Peers cfg ! length (tasks s), isBlocked = False,
                                      pc = G_Check\<rparr>]\<rparr>)
      else None)"
| "exec cfg req LoopExit s =
     (if bpc s = B_Loop \<and> length (tasks s) = length (Peers cfg) then
        Some (s\<lparr>bpc := (if Mode cfg = Sync then B_Wait else B_Returned)\<rparr>)
      else None)"
| "exec cfg req WaitReturn s =
     (if bpc s = B_Wait \<and> wg s = 0 then Some (s\<lparr>bpc := B_Returned\<rparr>) else None)"
| "exec cfg req (Check i) s =
     (if i < length (tasks s) \<and> pc (tasks s ! i) = G_Check then
        Some (s\<lparr>tasks := (tasks s)[i := (tasks s ! i)
                  \<lparr>isBlocked := blockedAt (blocked s) (url (tasks s ! i)), pc := G_Decide\<rparr>]\<rparr>)
      else None)"
| "exec cfg req (Skip i) s =
     (if i < length (tasks s) \<and> pc (tasks s ! i) = G_Decide \<and> isBlocked (tasks s ! i) then
        Some (s\<lparr>tasks := (tasks s)[i := (tasks s ! i)\<lparr>pc := G_Done Skipped\<rparr>],
                wg := wg s - 1\<rparr>)
      else None)"
| "exec cfg req (Post i ok) s =
     (if i < length (tasks s) \<and> pc (tasks s ! i) = G_Decide \<and> \<not> isBlocked (tasks s ! i) then
        Some (s\<lparr>tasks := (tasks s)[i := (tasks s ! i)\<lparr>pc := G_Posted ok\<rparr>],
                delivered := delivered s @ [(i, url (tasks s ! i), req)]\<rparr>)
      else None)"
| "exec cfg req (Finish i) s =
     (if i < length (tasks s) then
        (case pc (tasks s ! i) of
           G_Posted ok \<Rightarrow>
             Some (s\<lparr>tasks := (tasks s)[i := (tasks s ! i)
                        \<lparr>pc := G_Done (if ok then Replicated else Failed)\<rparr>],
                     wg := wg s - 1\<rparr>)
         | _ \<Rightarrow> None)
      else None)"
| "exec cfg req Respond s =
     (if responded s = None \<and> (Mode cfg = Async \<or> bpc s = B_Returned) then
        Some (s\<lparr>responded :=
                  Some (respondJSON StatusOK (PutResponse ''ok'' (Mode cfg) (ReqID req)))\<rparr>)
      else None)"
| "exec cfg req (Partition b u) s =
     Some (s\<lparr>blocked := BlockPeers (snd (handlePartition (cfg\<lparr>BlockPeers := blocked s\<rparr>)
              \<lparr>Method = MethodPost,
               Query = (\<lambda>n. if n = ''block'' then b else if n = ''unblock'' then u else []),
               Body = (None :: unit option)\<rparr>))\<rparr>)"

text \<open>A schedule is a list of steps; \<open>run\<close> takes them in order and is \<open>None\<close> when one cannot be taken.\<close>

fun run :: "NodeConfig \<Rightarrow> ReplicateRequest \<Rightarrow> event list \<Rightarrow> bstate \<Rightarrow> bstate option" where
  "run cfg req [] s = Some s"
| "run cfg req (e # es) s =
     (case exec cfg req e s of None \<Rightarrow> None | Some s' \<Rightarrow> run cfg req es s')"

text \<open>The calls of \<open>PostReplicate\<close> that goroutine \<open>i\<close> has made.\<close>

definition deliveries :: "nat \<Rightarrow> bstate \<Rightarrow> (string \<times> ReplicateRequest) list" where
  "deliveries i s = map snd (filter (\<lambda>d. fst d = i) (delivered s))"

text \<open>The steps of the write itself, as opposed to the partition requests of others.\<close>

fun ownStep :: "event \<Rightarrow> bool" where
  "ownStep (Partition b u) = False"
| "ownStep e = True"

text \<open>
  An upper bound on the number of steps the write has left: four for a peer whose
  goroutine has not been started, for a goroutine the steps it has left, and the steps
  left to the caller and to the response.
\<close>

fun gleft :: "gpc \<Rightarrow> nat" where
  "gleft G_Check = 3"
| "gleft G_Decide = 2"
| "gleft (G_Posted ok) = 1"
| "gleft (G_Done out) = 0"

fun bleft :: "bpc \<Rightarrow> nat" where
  "bleft B_Loop = 2"
| "bleft B_Wait = 1"
| "bleft B_Returned = 0"

definition stepsLeft :: "NodeConfig \<Rightarrow> bstate \<Rightarrow> nat" where
  "stepsLeft cfg s =
     4 * (length (Peers cfg) - length (tasks s)) + sum_list (map (\<lambda>g. gleft (pc g)) (tasks s))
     + bleft (bpc s) + (if responded s = None then 1 else 0)"

fun isDone :: "gpc \<Rightarrow> bool" where
  "isDone (G_Done out) = True"
| "isDone p = False"

text \<open>What a goroutine that has not returned adds to the counter of the \<open>WaitGroup\<close>.\<close>

definition pending :: "goroutine \<Rightarrow> nat" where
  "pending g = (if isDone (pc g) then 0 else 1)"

text \<open>
  What holds in every state the steps can reach. The counter of the \<open>WaitGroup\<close> is the
  number of goroutines that have not returned (so \<open>wg.Done()\<close> never takes it below zero);
  no more goroutines are started than there are peers, and all of them are once the loop
  is left; in sync mode the caller has returned only when every goroutine has; a response
  is written only in async mode or after the return, and is the one of \<open>handlePut\<close>.
\<close>

definition waitInv :: "NodeConfig \<Rightarrow> ReplicateRequest \<Rightarrow> bstate \<Rightarrow> bool" where
  "waitInv cfg req s \<longleftrightarrow>
     wg s = sum_list (map pending (tasks s)) \<and>
     length (tasks s) \<le> length (Peers cfg) \<and>
     (bpc s \<noteq> B_Loop \<longrightarrow> length (tasks s) = length (Peers cfg)) \<and>
     (Mode cfg = Sync \<and> bpc s = B_Returned \<longrightarrow> (\<forall>g\<in>set (tasks s). isDone (pc g))) \<and>
     (\<forall>resp. responded s = Some resp \<longrightarrow>
        (Mode cfg = Async \<or> bpc s = B_Returned) \<and>
        resp = respondJSON StatusOK (PutResponse ''ok'' (Mode cfg) (ReqID req)))"

text \<open>A goroutine that has called \<open>PostReplicate\<close>.\<close>

fun attempted :: "gpc \<Rightarrow> bool" where
  "attempted (G_Posted ok) = True"
| "attempted (G_Done out) = (out \<noteq> Skipped)"
| "attempted p = False"


text \<open>
  Goroutine \<open>i\<close> runs for entry \<open>i\<close> of \<open>Peers\<close>; it has called \<open>PostReplicate\<close> only if
  its \<open>isBlocked\<close> is false, and skipped only if it is true; and its calls are none before
  it has called, and the one call with its address and the request after.
\<close>

definition delivInv :: "NodeConfig \<Rightarrow> ReplicateRequest \<Rightarrow> bstate \<Rightarrow> bool" where
  "delivInv cfg req s \<longleftrightarrow>
     length (tasks s) \<le> length (Peers cfg) \<and>
     (\<forall>i<length (tasks s).
        url (tasks s ! i) = Peers cfg ! i \<and>
        (attempted (pc (tasks s ! i)) \<longrightarrow> \<not> isBlocked (tasks s ! i)) \<and>
        (pc (tasks s ! i) = G_Done Skipped \<longrightarrow> isBlocked (tasks s ! i))) \<and>
     (\<forall>i. deliveries i s =
        (if i < length (tasks s) \<and> attempted (pc (tasks s ! i)) then [(Peers cfg ! i, req)]
         else []))"

text \<open>
  A leader in sync mode with two peers, the first of them blocked, and a request to
  replicate: the cluster of the end-to-end scenario after \<open>block=http://f1:8081\<close>.
\<close>

definition demoCfg :: NodeConfig where
  "demoCfg = \<lparr>ID = ''leader'', Role = Leader, Mode = Sync, Port = 8080,
              Peers = [''http://f1:8081'', ''http://f2:8082''],
              BlockPeers = [''http://f1:8081'' \<mapsto> True]\<rparr>"

definition demoReq :: ReplicateRequest where
  "demoReq = \<lparr>Key = ''weather'', Value = ''clear'', TS = 2, ReqID = ''r1''\<rparr>"


section \<open>Last write wins\<close>

lemma Upsert_absent: "kv (Key r) = None \<Longrightarrow> Upsert kv r = kv(Key r \<mapsto> r)"
  by (simp add: Upsert_def)

lemma Upsert_newer:
  "kv (Key r) = Some cur \<Longrightarrow> TS cur \<le> TS r \<Longrightarrow> Upsert kv r = kv(Key r \<mapsto> r)"
  by (simp add: Upsert_def Before_def)

lemma Upsert_stale:
  "kv (Key r) = Some cur \<Longrightarrow> TS r < TS cur \<Longrightarrow> Upsert kv r = kv"
  by (simp add: Upsert_def Before_def)

lemma Upsert_other: "k \<noteq> Key r \<Longrightarrow> Upsert kv r k = kv k"
  by (simp add: Upsert_def split: option.split)

text \<open>
  C1. \<open>Upsert\<close> stores the record when the key is absent or when the record's timestamp
  is greater than or equal to the stored one (a tie overwrites); a record strictly older
  than the stored entry leaves the whole store as it was, so a read of the key still gives
  the stored value and timestamp. \<open>Upsert\<close> is a total function of the store and the
  record: there is no input on which it fails.
\<close>

theorem Upsert_last_write_wins:
  "(kv (Key r) = None \<longrightarrow> Upsert kv r = kv(Key r \<mapsto> r)) \<and>
   (\<forall>cur. kv (Key r) = Some cur \<and> TS cur \<le> TS r \<longrightarrow> Upsert kv r = kv(Key r \<mapsto> r)) \<and>
   (\<forall>cur. kv (Key r) = Some cur \<and> TS r < TS cur \<longrightarrow>
      Upsert kv r = kv \<and> Get (Upsert kv r) (Key r) = (cur, True))"
  by (simp add: Upsert_absent Upsert_newer Upsert_stale Get_def)

theorem Upsert_last_write_wins_witness:
  "Upsert New \<lparr>Key = ''city'', Value = ''Raleigh'', TS = 5\<rparr> ''city''
     = Some \<lparr>Key = ''city'', Value = ''Raleigh'', TS = 5\<rparr> \<and>
   Upsert [''city'' \<mapsto> \<lparr>Key = ''city'', Value = ''Raleigh'', TS = 5\<rparr>]
      \<lparr>Key = ''city'', Value = ''Durham'', TS = 5\<rparr> ''city''
     = Some \<lparr>Key = ''city'', Value = ''Durham'', TS = 5\<rparr> \<and>
   Get (Upsert [''city'' \<mapsto> \<lparr>Key = ''city'', Value = ''Raleigh'', TS = 5\<rparr>]
      \<lparr>Key = ''city'', Value = ''Durham'', TS = 4\<rparr>) ''city''
     = (\<lparr>Key = ''city'', Value = ''Raleigh'', TS = 5\<rparr>, True)"
  using Upsert_last_write_wins [of New "\<lparr>Key = ''city'', Value = ''Raleigh'', TS = 5\<rparr>"]
    Upsert_last_write_wins [of "[''city'' \<mapsto> \<lparr>Key = ''city'', Value = ''Raleigh'', TS = 5\<rparr>]"
      "\<lparr>Key = ''city'', Value = ''Durham'', TS = 5\<rparr>"]
    Upsert_last_write_wins [of "[''city'' \<mapsto> \<lparr>Key = ''city'', Value = ''Raleigh'', TS = 5\<rparr>]"
      "\<lparr>Key = ''city'', Value = ''Durham'', TS = 4\<rparr>"]
  by (simp add: New_def Get_def)

text \<open>
  C7. Merging a record a second time changes nothing: the store after two \<open>Upsert\<close>s of
  the same record is the store after one.
\<close>

theorem Upsert_idempotent: "Upsert (Upsert kv r) r = Upsert kv r"
  by (simp add: Upsert_def Before_def split: option.split)

text \<open>
  A run of merges on one key, from a store that has no entry for it, ends with the last
  of the records that carry the greatest timestamp. The proof goes along the run from its
  end: the record merged last either is stale and changes nothing, or has a timestamp at
  least the greatest so far and takes the key.
\<close>

lemma foldl_Upsert_same_key:
  assumes "es \<noteq> []" "\<forall>e\<in>set es. Key e = k" "kv k = None"
  shows "foldl Upsert kv es k = Some (last (filter (\<lambda>e. TS e = Max (TS ` set es)) es))
     \<and> TS (last (filter (\<lambda>e. TS e = Max (TS ` set es)) es)) = Max (TS ` set es)"
  using assms
proof (induction es rule: rev_induct)
  case Nil
  then show ?case by simp
next
  case (snoc e es)
  let ?kv = "foldl Upsert kv es"
  have ke: "Key e = k" using snoc.prems by simp
  show ?case
  proof (cases "es = []")
    case True
    then show ?thesis using snoc.prems ke by (simp add: Upsert_def)
  next
    case False
    let ?m = "Max (TS ` set es)"
    let ?r = "last (filter (\<lambda>e. TS e = ?m) es)"
    from False snoc have ih: "?kv k = Some ?r" "TS ?r = ?m" by simp_all
    have mx: "Max (TS ` set (es @ [e])) = max (TS e) ?m"
      using False by simp
    show ?thesis
    proof (cases "TS e < ?m")
      case True
      then have "Upsert ?kv e = ?kv" using ih ke by (simp add: Upsert_def Before_def)
      moreover have "max (TS e) ?m = ?m" using True by simp
      ultimately show ?thesis using ih mx True by simp
    next
      case stale: False
      then have "Upsert ?kv e = ?kv(k \<mapsto> e)" using ih ke by (simp add: Upsert_def Before_def)
      moreover have "max (TS e) ?m = TS e" using stale by simp
      ultimately show ?thesis using mx by simp
    qed
  qed
qed

text \<open>
  Merges of other keys do not touch the entry of a key: what a run of merges leaves for
  \<open>k\<close> is what its merges of \<open>k\<close> alone leave.
\<close>

lemma Upsert_at_key:
  "Key e = k \<Longrightarrow> Upsert kv e k =
     (case kv k of None \<Rightarrow> Some e
      | Some cur \<Rightarrow> if TS cur \<le> TS e then Some e else Some cur)"
  by (auto simp: Upsert_def Before_def split: option.split)

lemma foldl_Upsert_filter:
  "foldl Upsert kv es k = foldl Upsert kv (filter (\<lambda>e. Key e = k) es) k"
proof (induction es rule: rev_induct)
  case Nil
  then show ?case by simp
next
  case (snoc e es)
  show ?case
  proof (cases "Key e = k")
    case True
    have "foldl Upsert kv (es @ [e]) k = Upsert (foldl Upsert kv es) e k" by simp
    also have "\<dots> = Upsert (foldl Upsert kv (filter (\<lambda>e. Key e = k) es)) e k"
      by (simp only: Upsert_at_key [OF True] snoc)
    also have "\<dots> = foldl Upsert kv (filter (\<lambda>e. Key e = k) (es @ [e])) k"
      using True by simp
    finally show ?thesis .
  next
    case False
    then have "foldl Upsert kv (es @ [e]) k = foldl Upsert kv es k"
      by (simp add: Upsert_other)
    then show ?thesis using False snoc by simp
  qed
qed

text \<open>
  C2. Take any sequence \<open>es\<close> of merges, applied in the order of the list to a store that
  holds nothing for the key \<open>k\<close> yet (as the store does when it is created), and let the
  merges of \<open>k\<close> among them be at least one. The entry stored for \<open>k\<close> at the end has
  the greatest of their timestamps, and it is the record applied last among those that
  carry this timestamp, so its value is the one paired with the greatest timestamp. The
  list is arbitrary, so this holds for every order of application.
\<close>

theorem Upsert_sequence_converges:
  assumes "filter (\<lambda>e. Key e = k) es \<noteq> []" and "kv k = None"
  shows "\<exists>r. foldl Upsert kv es k = Some r \<and>
              TS r = Max (TS ` set (filter (\<lambda>e. Key e = k) es)) \<and>
              r = last (filter (\<lambda>e. TS e = Max (TS ` set (filter (\<lambda>e. Key e = k) es)))
                          (filter (\<lambda>e. Key e = k) es))"
proof -
  let ?ks = "filter (\<lambda>e. Key e = k) es"
  have same: "\<forall>e\<in>set ?ks. Key e = k" by simp
  have "foldl Upsert kv ?ks k = Some (last (filter (\<lambda>e. TS e = Max (TS ` set ?ks)) ?ks))
     \<and> TS (last (filter (\<lambda>e. TS e = Max (TS ` set ?ks)) ?ks)) = Max (TS ` set ?ks)"
    using assms(1) same assms(2) by (rule foldl_Upsert_same_key)
  moreover have "foldl Upsert kv es k = foldl Upsert kv ?ks k"
    by (rule foldl_Upsert_filter)
  ultimately show ?thesis by metis
qed

theorem Upsert_sequence_converges_witness:
  "foldl Upsert New
     [\<lparr>Key = ''k'', Value = ''b'', TS = 7\<rparr>, \<lparr>Key = ''k'', Value = ''a'', TS = 3\<rparr>,
      \<lparr>Key = ''j'', Value = ''z'', TS = 9\<rparr>,
      \<lparr>Key = ''k'', Value = ''c'', TS = 7\<rparr>, \<lparr>Key = ''k'', Value = ''d'', TS = 5\<rparr>] ''k''
   = Some \<lparr>Key = ''k'', Value = ''c'', TS = 7\<rparr>"
  using Upsert_sequence_converges [of "''k''"
     "[\<lparr>Key = ''k'', Value = ''b'', TS = 7\<rparr>, \<lparr>Key = ''k'', Value = ''a'', TS = 3\<rparr>,
       \<lparr>Key = ''j'', Value = ''z'', TS = 9\<rparr>,
       \<lparr>Key = ''k'', Value = ''c'', TS = 7\<rparr>, \<lparr>Key = ''k'', Value = ''d'', TS = 5\<rparr>]"
     New]
  by (simp add: New_def)


section \<open>The handlers\<close>

text \<open>
  C4. A write request to a node whose role is not leader, or whose decoded body has the
  empty key, is answered with an error response, and the store after the call is the
  store before it; nothing is handed to the broadcast.
\<close>

theorem handlePut_rejects_unchanged:
  assumes "Role cfg \<noteq> Leader \<or> (\<exists>req. Body r = Some req \<and> Key req = [])"
  shows "case handlePut cfg newID now kv r of
           (resp, kv', b) \<Rightarrow>
             kv' = kv \<and> b = None \<and> StatusCode resp \<noteq> StatusOK \<and>
             (\<exists>msg. Payload resp = ErrorResponse msg)"
  using assms
  by (auto simp: handlePut_def respondError_def respondJSON_def StatusMethodNotAllowed_def
        StatusForbidden_def StatusBadRequest_def StatusOK_def)

theorem handlePut_rejects_unchanged_witness:
  "handlePut \<lparr>ID = ''f1'', Role = Follower, Mode = Sync, Port = 8081, Peers = [],
              BlockPeers = Map.empty\<rparr> ''id'' 9 [''a'' \<mapsto> \<lparr>Key = ''a'', Value = ''x'', TS = 1\<rparr>]
      \<lparr>Method = MethodPost, Query = (\<lambda>_. []), Body = Some \<lparr>Key = ''a'', Value = ''y''\<rparr>\<rparr>
     = (respondError StatusForbidden ''not a leader'',
        [''a'' \<mapsto> \<lparr>Key = ''a'', Value = ''x'', TS = 1\<rparr>], None) \<and>
   handlePut \<lparr>ID = ''l'', Role = Leader, Mode = Sync, Port = 8080, Peers = [],
              BlockPeers = Map.empty\<rparr> ''id'' 9 [''a'' \<mapsto> \<lparr>Key = ''a'', Value = ''x'', TS = 1\<rparr>]
      \<lparr>Method = MethodPost, Query = (\<lambda>_. []), Body = Some \<lparr>Key = [], Value = ''y''\<rparr>\<rparr>
     = (respondError StatusBadRequest ''key cannot be empty'',
        [''a'' \<mapsto> \<lparr>Key = ''a'', Value = ''x'', TS = 1\<rparr>], None)"
  using handlePut_rejects_unchanged [where
      cfg = "\<lparr>ID = ''f1'', Role = Follower, Mode = Sync, Port = 8081, Peers = [],
        BlockPeers = Map.empty\<rparr>"
      and r = "\<lparr>Method = MethodPost, Query = (\<lambda>_. []), Body = Some \<lparr>Key = ''a'', Value = ''y''\<rparr>\<rparr>"
      and newID = "''id''" and now = 9 and kv = "[''a'' \<mapsto> \<lparr>Key = ''a'', Value = ''x'', TS = 1\<rparr>]"]
    handlePut_rejects_unchanged [where
      cfg = "\<lparr>ID = ''l'', Role = Leader, Mode = Sync, Port = 8080, Peers = [],
        BlockPeers = Map.empty\<rparr>"
      and r = "\<lparr>Method = MethodPost, Query = (\<lambda>_. []), Body = Some \<lparr>Key = [], Value = ''y''\<rparr>\<rparr>"
      and newID = "''id''" and now = 9 and kv = "[''a'' \<mapsto> \<lparr>Key = ''a'', Value = ''x'', TS = 1\<rparr>]"]
  by (simp add: handlePut_def Leader_def Follower_def MethodPost_def)

lemma handleReplicate_accept:
  "Method r = MethodPost \<Longrightarrow> Role cfg \<noteq> Leader \<Longrightarrow> Body r = Some req \<Longrightarrow>
   handleReplicate cfg kv r =
     (respondJSON StatusOK (ReplicateResponse ''ok''),
      Upsert kv \<lparr>Key = Key req, Value = Value req, TS = TS req\<rparr>)"
  by (simp add: handleReplicate_def Let_def)

lemma handleReplicate_reject:
  "Method r \<noteq> MethodPost \<or> Role cfg = Leader \<or> Body r = None \<Longrightarrow>
   snd (handleReplicate cfg kv r) = kv \<and>
   StatusCode (fst (handleReplicate cfg kv r)) \<noteq> StatusOK \<and>
   (\<exists>msg. Payload (fst (handleReplicate cfg kv r)) = ErrorResponse msg)"
  by (auto simp: handleReplicate_def respondError_def respondJSON_def
        StatusMethodNotAllowed_def StatusForbidden_def StatusBadRequest_def StatusOK_def)

text \<open>
  C5. A replicated write that arrives as a POST on a node that is not a leader, with a
  body that decodes, is applied to the store with \<open>Upsert\<close> and acknowledged with
  status 200 and \<open>ok\<close>, whatever the record. The handler rejects exactly when the input is
  malformed (the request is not a POST, or its body does not decode) or the node is a
  leader, and then the store after the call is the store before it.
\<close>

theorem handleReplicate_merges_or_rejects:
  "(Method r = MethodPost \<and> Role cfg \<noteq> Leader \<and> Body r \<noteq> None \<longrightarrow>
      handleReplicate cfg kv r =
        (respondJSON StatusOK (ReplicateResponse ''ok''),
         Upsert kv \<lparr>Key = Key (the (Body r)), Value = Value (the (Body r)),
                    TS = TS (the (Body r))\<rparr>)) \<and>
   (Method r \<noteq> MethodPost \<or> Role cfg = Leader \<or> Body r = None \<longrightarrow>
      snd (handleReplicate cfg kv r) = kv \<and>
      StatusCode (fst (handleReplicate cfg kv r)) \<noteq> StatusOK \<and>
      (\<exists>msg. Payload (fst (handleReplicate cfg kv r)) = ErrorResponse msg))"
  using handleReplicate_accept [of r cfg "the (Body r)" kv] handleReplicate_reject [of r cfg kv]
  by auto

theorem handleReplicate_merges_or_rejects_witness:
  "handleReplicate \<lparr>ID = ''f1'', Role = Follower, Mode = Sync, Port = 8081, Peers = [],
                    BlockPeers = Map.empty\<rparr> New
      \<lparr>Method = MethodPost, Query = (\<lambda>_. []),
       Body = Some \<lparr>Key = ''a'', Value = ''x'', TS = 4, ReqID = ''q''\<rparr>\<rparr>
     = (respondJSON StatusOK (ReplicateResponse ''ok''),
        Upsert New \<lparr>Key = ''a'', Value = ''x'', TS = 4\<rparr>) \<and>
   snd (handleReplicate \<lparr>ID = ''l'', Role = Leader, Mode = Sync, Port = 8080, Peers = [],
                    BlockPeers = Map.empty\<rparr> New
      \<lparr>Method = MethodPost, Query = (\<lambda>_. []),
       Body = Some \<lparr>Key = ''a'', Value = ''x'', TS = 4, ReqID = ''q''\<rparr>\<rparr>) = New"
  using handleReplicate_merges_or_rejects [where
      cfg = "\<lparr>ID = ''f1'', Role = Follower, Mode = Sync, Port = 8081, Peers = [],
              BlockPeers = Map.empty\<rparr>"
      and kv = New
      and r = "\<lparr>Method = MethodPost, Query = (\<lambda>_. []),
                Body = Some \<lparr>Key = ''a'', Value = ''x'', TS = 4, ReqID = ''q''\<rparr>\<rparr>"]
    handleReplicate_merges_or_rejects [where
      cfg = "\<lparr>ID = ''l'', Role = Leader, Mode = Sync, Port = 8080, Peers = [],
              BlockPeers = Map.empty\<rparr>"
      and kv = New
      and r = "\<lparr>Method = MethodPost, Query = (\<lambda>_. []),
                Body = Some \<lparr>Key = ''a'', Value = ''x'', TS = 4, ReqID = ''q''\<rparr>\<rparr>"]
  by (simp add: Leader_def Follower_def)

text \<open>
  C10. The decoded body is the only check on a replicated write: on a node that is not a
  leader, every POST whose body decodes is merged and acknowledged with \<open>ok\<close>, whatever
  its key and timestamp. A body with the empty key, merged into a store that has no entry
  for the empty key, leaves the store with an entry whose key is the empty string.
\<close>

theorem handleReplicate_no_validation:
  assumes "Method r = MethodPost" and "Role cfg \<noteq> Leader" and "Body r = Some req"
  shows "handleReplicate cfg kv r =
           (respondJSON StatusOK (ReplicateResponse ''ok''),
            Upsert kv \<lparr>Key = Key req, Value = Value req, TS = TS req\<rparr>) \<and>
         (Key req = [] \<and> kv [] = None \<longrightarrow>
            snd (handleReplicate cfg kv r) [] =
              Some \<lparr>Key = [], Value = Value req, TS = TS req\<rparr>)"
  using assms by (simp add: handleReplicate_accept Upsert_def)

theorem handleReplicate_no_validation_witness:
  "handleReplicate \<lparr>ID = ''f1'', Role = Follower, Mode = Sync, Port = 8081, Peers = [],
                    BlockPeers = Map.empty\<rparr> New
      \<lparr>Method = MethodPost, Query = (\<lambda>_. []),
       Body = Some \<lparr>Key = [], Value = ''x'', TS = 0, ReqID = []\<rparr>\<rparr>
     = (respondJSON StatusOK (ReplicateResponse ''ok''),
        [[] \<mapsto> \<lparr>Key = [], Value = ''x'', TS = 0\<rparr>])"
  using handleReplicate_no_validation [where
      cfg = "\<lparr>ID = ''f1'', Role = Follower, Mode = Sync, Port = 8081, Peers = [],
              BlockPeers = Map.empty\<rparr>"
      and kv = New and req = "\<lparr>Key = [], Value = ''x'', TS = 0, ReqID = []\<rparr>"
      and r = "\<lparr>Method = MethodPost, Query = (\<lambda>_. []),
                Body = Some \<lparr>Key = [], Value = ''x'', TS = 0, ReqID = []\<rparr>\<rparr>"]
  by (simp add: Leader_def Follower_def New_def Upsert_def)

text \<open>
  C9. A partition request (a POST) that names the same peer \<open>p\<close> in \<open>block\<close> and in
  \<open>unblock\<close> first sets the entry of \<open>p\<close> and then deletes it: after the call \<open>p\<close> has no
  entry in \<open>BlockPeers\<close> and reads as not blocked, whatever \<open>BlockPeers\<close> held for \<open>p\<close>
  before, and no other peer's entry has changed. (A parameter counts as supplied when it
  is not the empty string, as in the handler.)
\<close>

theorem handlePartition_block_then_unblock:
  assumes "Method r = MethodPost" and "Query r ''block'' = p" and "Query r ''unblock'' = p"
    and "p \<noteq> []"
  shows "BlockPeers (snd (handlePartition cfg r)) = (BlockPeers cfg)(p := None) \<and>
         \<not> blockedAt (BlockPeers (snd (handlePartition cfg r))) p"
  using assms by (simp add: handlePartition_def blockedAt_def Let_def)

theorem handlePartition_block_then_unblock_witness:
  "BlockPeers (snd (handlePartition
      \<lparr>ID = ''l'', Role = Leader, Mode = Sync, Port = 8080, Peers = [''http://f1:8081''],
       BlockPeers = [''http://f1:8081'' \<mapsto> True]\<rparr>
      \<lparr>Method = MethodPost, Query = (\<lambda>n. if n = ''block'' \<or> n = ''unblock''
                                            then ''http://f1:8081'' else []),
       Body = None :: unit option\<rparr>)) ''http://f1:8081'' = None"
  using handlePartition_block_then_unblock [where
      cfg = "\<lparr>ID = ''l'', Role = Leader, Mode = Sync, Port = 8080, Peers = [''http://f1:8081''],
              BlockPeers = [''http://f1:8081'' \<mapsto> True]\<rparr>"
      and p = "''http://f1:8081''"
      and r = "\<lparr>Method = MethodPost, Query = (\<lambda>n. if n = ''block'' \<or> n = ''unblock''
                                            then ''http://f1:8081'' else []),
                Body = None :: unit option\<rparr>"]
  by simp


section \<open>Peer addresses\<close>

lemma matchLen_le: "matchLen pats s \<le> length s"
proof (cases "find (\<lambda>e. take (length e) s = e) pats")
  case None
  then show ?thesis by (simp add: matchLen_def)
next
  case (Some e)
  then have "take (length e) s = e" by (auto simp: find_Some_iff)
  then have "length (take (length e) s) = length e" by simp
  then have "length e \<le> length s" by simp
  then show ?thesis using Some by (simp add: matchLen_def)
qed

lemma strip_Nil: "strip pats [] = []"
  using matchLen_le [of pats "[]"] by (simp add: strip.simps)

lemma matchLen_strip: "matchLen pats (strip pats s) = 0"
  by (induction pats s rule: strip.induct) (simp add: strip.simps)

lemma matchLen_take:
  assumes "matchLen pats s \<noteq> 0"
  shows "take (matchLen pats s) s \<in> set pats"
proof (cases "find (\<lambda>e. take (length e) s = e) pats")
  case None
  then show ?thesis using assms by (simp add: matchLen_def)
next
  case (Some e)
  then have "take (length e) s = e" "e \<in> set pats"
    by (auto simp: find_Some_iff)
  then show ?thesis using Some by (simp add: matchLen_def)
qed

lemma matchLen_found:
  assumes "e \<in> set pats" and "take (length e) s = e" and "[] \<notin> set pats"
  shows "matchLen pats s \<noteq> 0"
proof (cases "find (\<lambda>e. take (length e) s = e) pats")
  case None
  then show ?thesis using assms(1,2) by (auto simp: find_None_iff)
next
  case (Some e')
  then have "e' \<in> set pats" by (auto simp: find_Some_iff)
  then have "e' \<noteq> []" using assms(3) by auto
  then show ?thesis using Some by (simp add: matchLen_def)
qed

lemma set_strip: "set s \<subseteq> set (strip pats s) \<union> (\<Union>e\<in>set pats. set e)"
proof (induction pats s rule: strip.induct)
  case (1 pats s)
  show ?case
  proof (cases "matchLen pats s = 0")
    case True
    then show ?thesis by (simp add: strip.simps)
  next
    case False
    let ?n = "matchLen pats s"
    have "set s = set (take ?n s) \<union> set (drop ?n s)"
      by (metis append_take_drop_id set_append)
    moreover have "set (take ?n s) \<subseteq> (\<Union>e\<in>set pats. set e)"
      using matchLen_take [OF False] by blast
    moreover have "set (drop ?n s) \<subseteq> set (strip pats (drop ?n s)) \<union> (\<Union>e\<in>set pats. set e)"
      using 1 False by simp
    moreover have "strip pats s = strip pats (drop ?n s)"
      using False by (simp add: strip.simps)
    ultimately show ?thesis by auto
  qed
qed

lemma strip_empty_suffix:
  "strip pats u = [] \<Longrightarrow> u \<noteq> [] \<Longrightarrow> \<exists>e\<in>set pats. e \<noteq> [] \<and> (\<exists>v. u = v @ e)"
proof (induction pats u rule: strip.induct)
  case (1 pats u)
  show ?case
  proof (cases "matchLen pats u = 0")
    case True
    then show ?thesis using "1.prems" by (simp add: strip.simps)
  next
    case False
    let ?n = "matchLen pats u"
    have e: "take ?n u \<in> set pats" using False by (rule matchLen_take)
    have st: "strip pats (drop ?n u) = []"
      using False "1.prems"(1) by (simp add: strip.simps)
    show ?thesis
    proof (cases "drop ?n u = []")
      case True
      then have "u = [] @ take ?n u" by (metis append_Nil append_Nil2 append_take_drop_id)
      moreover have "take ?n u \<noteq> []" using False "1.prems"(2) by simp
      ultimately show ?thesis using e by blast
    next
      case rest: False
      from "1.IH" [OF False st rest] obtain e' v where
        "e' \<in> set pats" "e' \<noteq> []" "drop ?n u = v @ e'" by blast
      then have "u = (take ?n u @ v) @ e'" by (metis append_assoc append_take_drop_id)
      then show ?thesis using \<open>e' \<in> set pats\<close> \<open>e' \<noteq> []\<close> by blast
    qed
  qed
qed

lemma spaceRunes_nonempty: "[] \<notin> set spaceRunes"
  by (simp add: spaceRunes_def)

lemma spaceRunes_no_comma: "CHR '','' \<notin> (\<Union>e\<in>set spaceRunes. set e)"
  by (simp add: spaceRunes_def)

lemma TrimSpace_empty_iff: "TrimSpace s = [] \<longleftrightarrow> spaceOnly s"
proof
  assume "spaceOnly s"
  then show "TrimSpace s = []" by (simp add: TrimSpace_def spaceOnly_def strip_Nil)
next
  assume a: "TrimSpace s = []"
  let ?t = "strip spaceRunes s"
  have st: "strip (map rev spaceRunes) (rev ?t) = []" using a by (simp add: TrimSpace_def)
  have "?t = []"
  proof (rule ccontr)
    assume ne: "?t \<noteq> []"
    then have "rev ?t \<noteq> []" by simp
    from strip_empty_suffix [OF st this] obtain e v where
      e: "e \<in> set (map rev spaceRunes)" "rev ?t = v @ e" by blast
    then have t: "?t = rev e @ rev v" by (metis rev_append rev_rev_ident)
    have "rev e \<in> set spaceRunes" using e(1) by auto
    moreover have "take (length (rev e)) ?t = rev e" using t by simp
    ultimately have "matchLen spaceRunes ?t \<noteq> 0"
      using spaceRunes_nonempty by (rule matchLen_found)
    then show False by (simp add: matchLen_strip)
  qed
  then show "spaceOnly s" by (simp add: spaceOnly_def)
qed

lemma spaceOnly_no_comma: "spaceOnly s \<Longrightarrow> CHR '','' \<notin> set s"
proof -
  assume "spaceOnly s"
  then have "set s \<subseteq> (\<Union>e\<in>set spaceRunes. set e)"
    using set_strip [of s spaceRunes] by (simp add: spaceOnly_def)
  then show ?thesis using spaceRunes_no_comma by blast
qed

lemma normalizeLoop_map:
  "normalizeLoop parse parts out =
     out @ map (normalizeOne parse) (filter (\<lambda>p. p \<noteq> []) (map TrimSpace parts))"
  by (induction parts arbitrary: out)
     (simp_all add: Let_def normalizeOne_def split: option.split)

lemma Split_no_sep: "sep \<notin> set s \<Longrightarrow> Split s sep = [s]"
  by (induction s) auto

lemma filter_map_TrimSpace:
  "filter (\<lambda>p. p \<noteq> []) (map TrimSpace parts) =
   map TrimSpace (filter (\<lambda>s. \<not> spaceOnly s) parts)"
  by (induction parts) (simp_all add: TrimSpace_empty_iff)

lemma NormalizePeers_map:
  "NormalizePeers parse peersCSV =
     map (\<lambda>s. normalizeOne parse (TrimSpace s))
       (filter (\<lambda>s. \<not> spaceOnly s) (Split peersCSV CHR '',''))"
proof (cases "TrimSpace peersCSV = []")
  case True
  then have sp: "spaceOnly peersCSV" by (simp add: TrimSpace_empty_iff)
  then have "CHR '','' \<notin> set peersCSV" by (rule spaceOnly_no_comma)
  then have one: "Split peersCSV CHR '','' = [peersCSV]" by (rule Split_no_sep)
  have "filter (\<lambda>s. \<not> spaceOnly s) [peersCSV] = []" using sp by simp
  then show ?thesis using True by (simp only: one NormalizePeers_def if_True list.map simp_thms)
next
  case False
  then show ?thesis
    by (simp only: NormalizePeers_def if_False normalizeLoop_map filter_map_TrimSpace
          append_Nil map_map comp_def)
qed


text \<open>
  C8 (as amended). Let \<open>url.Parse\<close> find no scheme together with a host in a bare
  \<open>host:port\<close> (it reports an error, or takes the host for a scheme and the port for an
  opaque part). Then \<open>NormalizePeers\<close> returns one address for each comma-separated part
  that is not empty or white space only, in order: for a part that, trimmed, is a bare
  \<open>host:port\<close>, the trimmed part behind \<open>http://\<close>; for a part that parses with a scheme
  and a host, what \<open>String()\<close> renders of the parsed URL, which need not be the part as it
  was written. Parts that are empty or white space only give nothing.
\<close>

theorem NormalizePeers_bare_host_port:
  assumes "\<forall>p. bare_host_port p \<longrightarrow> \<not> (\<exists>u. parse p = Some u \<and> Scheme u \<noteq> [] \<and> Host u \<noteq> [])"
  shows "let kept = filter (\<lambda>s. \<not> spaceOnly s) (Split peersCSV CHR '','');
             out = NormalizePeers parse peersCSV
         in length out = length kept \<and>
            (\<forall>i<length kept.
               (bare_host_port (TrimSpace (kept ! i)) \<longrightarrow>
                  out ! i = ''http://'' @ TrimSpace (kept ! i)) \<and>
               (\<forall>u. parse (TrimSpace (kept ! i)) = Some u \<and> Scheme u \<noteq> [] \<and> Host u \<noteq> [] \<longrightarrow>
                  out ! i = String u))"
proof -
  have bare: "normalizeOne parse p = ''http://'' @ p" if "bare_host_port p" for p
    using that assms by (auto simp: normalizeOne_def split: option.split)
  have full: "normalizeOne parse p = String u"
    if "parse p = Some u" "Scheme u \<noteq> []" "Host u \<noteq> []" for p u
    using that by (simp add: normalizeOne_def)
  show ?thesis
    unfolding Let_def NormalizePeers_map
  proof (intro conjI allI impI)
    fix i u
    assume "i < length (filter (\<lambda>s. \<not> spaceOnly s) (Split peersCSV CHR '',''))"
      and "parse (TrimSpace (filter (\<lambda>s. \<not> spaceOnly s) (Split peersCSV CHR '','') ! i)) = Some u
           \<and> Scheme u \<noteq> [] \<and> Host u \<noteq> []"
    then show "map (\<lambda>s. normalizeOne parse (TrimSpace s))
                 (filter (\<lambda>s. \<not> spaceOnly s) (Split peersCSV CHR '','')) ! i = String u"
      using full by simp
  qed (simp_all add: bare)
qed

theorem NormalizePeers_bare_host_port_witness:
  "length (NormalizePeers parseDemo
     ('' f1:8081 ,'' @ [CHR 0xC2, CHR 0xA0] @ '', ,http://f2:8082,'')) = 2 \<and>
   NormalizePeers parseDemo
     ('' f1:8081 ,'' @ [CHR 0xC2, CHR 0xA0] @ '', ,http://f2:8082,'') ! 0 = ''http://f1:8081'' \<and>
   NormalizePeers parseDemo
     ('' f1:8081 ,'' @ [CHR 0xC2, CHR 0xA0] @ '', ,http://f2:8082,'') ! 1 = ''http://f2:8082''"
proof -
  let ?csv = "'' f1:8081 ,'' @ [CHR 0xC2, CHR 0xA0] @ '', ,http://f2:8082,''"
  have nb: "\<not> bare_host_port ''HTTP://F2:8082''" "\<not> bare_host_port ''http://f2:8082''"
    by (simp_all add: bare_host_port_def isDigit_def)
  have lib: "\<forall>p. bare_host_port p \<longrightarrow>
      \<not> (\<exists>u. parseDemo p = Some u \<and> Scheme u \<noteq> [] \<and> Host u \<noteq> [])"
    using nb by (auto simp: parseDemo_def)
  have kept: "filter (\<lambda>s. \<not> spaceOnly s) (Split ?csv CHR '','') =
                ['' f1:8081 '', ''http://f2:8082'']"
    by code_simp
  have trim: "TrimSpace '' f1:8081 '' = ''f1:8081''" "TrimSpace ''http://f2:8082'' = ''http://f2:8082''"
    by code_simp+
  have bare: "bare_host_port ''f1:8081''"
    by (simp add: bare_host_port_def isDigit_def isLetter_def)
  have full: "parseDemo ''http://f2:8082'' =
      Some \<lparr>Scheme = ''http'', Host = ''f2:8082'', String = ''http://f2:8082''\<rparr>"
    by (simp add: parseDemo_def)
  from NormalizePeers_bare_host_port [of parseDemo ?csv, OF lib]
  show ?thesis
    unfolding Let_def kept using trim bare full by (simp add: less_Suc_eq)
qed

text \<open>
  C8 as first stated, with an address that has a scheme and a host kept as it was
  written, fails: \<open>HTTP://F2:8082\<close> comes out as \<open>http://F2:8082\<close>, its scheme in lower
  case.
\<close>

theorem NormalizePeers_keeps_counterexample:
  "parseDemo ''HTTP://F2:8082'' =
     Some \<lparr>Scheme = ''http'', Host = ''F2:8082'', String = ''http://F2:8082''\<rparr> \<and>
   NormalizePeers parseDemo ''HTTP://F2:8082'' = [''http://F2:8082''] \<and>
   NormalizePeers parseDemo ''HTTP://F2:8082'' \<noteq> [''HTTP://F2:8082'']"
  by code_simp


section \<open>The broadcast\<close>

lemma sum_list_map_update:
  fixes f :: "'a \<Rightarrow> nat"
  shows "i < length xs \<Longrightarrow> sum_list (map f (xs[i := y])) + f (xs ! i) = sum_list (map f xs) + f y"
proof (induction xs arbitrary: i)
  case Nil
  then show ?case by simp
next
  case (Cons x xs)
  show ?case
  proof (cases i)
    case 0
    then show ?thesis by simp
  next
    case (Suc j)
    with Cons.prems have "j < length xs" by simp
    from Cons.IH [OF this] show ?thesis using Suc by simp
  qed
qed

lemma pending_update_same:
  "i < length ts \<Longrightarrow> pending g' = pending (ts ! i) \<Longrightarrow>
   sum_list (map pending (ts[i := g'])) = sum_list (map pending ts)"
  using sum_list_map_update [of i ts pending g'] by simp

lemma pending_update_done:
  "i < length ts \<Longrightarrow> \<not> isDone (pc (ts ! i)) \<Longrightarrow> isDone (pc g') \<Longrightarrow>
   Suc (sum_list (map pending (ts[i := g']))) = sum_list (map pending ts)"
  using sum_list_map_update [of i ts pending g'] by (simp add: pending_def)

lemma pending_zero_done:
  "sum_list (map pending ts) = 0 \<Longrightarrow> g \<in> set ts \<Longrightarrow> isDone (pc g)"
  by (induction ts) (auto simp: pending_def split: if_splits)

lemma waitInv_init: "waitInv cfg req (init cfg)"
  by (simp add: waitInv_def init_def)

lemma waitInv_exec:
  assumes "waitInv cfg req s" and "exec cfg req e s = Some s'"
  shows "waitInv cfg req s'"
proof (cases e)
  case Spawn
  then show ?thesis using assms
    by (auto simp: waitInv_def pending_def split: if_splits)
next
  case LoopExit
  then show ?thesis using assms
    by (auto simp: waitInv_def Sync_def Async_def split: if_splits)
next
  case WaitReturn
  then have en: "bpc s = B_Wait" "wg s = 0" and s': "s' = s\<lparr>bpc := B_Returned\<rparr>"
    using assms(2) by (auto split: if_splits)
  have w: "wg s = sum_list (map pending (tasks s))"
    using assms(1) unfolding waitInv_def by blast
  have "sum_list (map pending (tasks s)) = 0"
    unfolding w [symmetric] by (fact en(2))
  then have "\<forall>g\<in>set (tasks s). isDone (pc g)"
    by (blast intro: pending_zero_done)
  then show ?thesis using assms(1) s' en by (auto simp: waitInv_def)
next
  case (Check i)
  then have en: "i < length (tasks s)" "pc (tasks s ! i) = G_Check"
    and s': "s' = s\<lparr>tasks := (tasks s)[i := (tasks s ! i)
                  \<lparr>isBlocked := blockedAt (blocked s) (url (tasks s ! i)), pc := G_Decide\<rparr>]\<rparr>"
    using assms(2) by (auto split: if_splits)
  have "\<not> (\<forall>g\<in>set (tasks s). isDone (pc g))" using en by (metis isDone.simps(2) nth_mem)
  moreover have "sum_list (map pending (tasks s')) = sum_list (map pending (tasks s))"
    using en s' by (simp add: pending_update_same pending_update_done pending_def)
  ultimately show ?thesis using assms(1) s' by (auto simp: waitInv_def)
next
  case (Skip i)
  then have en: "i < length (tasks s)" "pc (tasks s ! i) = G_Decide"
    and s': "s' = s\<lparr>tasks := (tasks s)[i := (tasks s ! i)\<lparr>pc := G_Done Skipped\<rparr>],
                wg := wg s - 1\<rparr>"
    using assms(2) by (auto split: if_splits)
  have "\<not> (\<forall>g\<in>set (tasks s). isDone (pc g))" using en by (metis isDone.simps(3) nth_mem)
  moreover have "Suc (sum_list (map pending (tasks s'))) = sum_list (map pending (tasks s))"
    using en s' by (simp add: pending_update_same pending_update_done pending_def)
  ultimately show ?thesis using assms(1) s' by (auto simp: waitInv_def)
next
  case (Post i ok)
  then have en: "i < length (tasks s)" "pc (tasks s ! i) = G_Decide"
    and s': "s' = s\<lparr>tasks := (tasks s)[i := (tasks s ! i)\<lparr>pc := G_Posted ok\<rparr>],
                delivered := delivered s @ [(i, url (tasks s ! i), req)]\<rparr>"
    using assms(2) by (auto split: if_splits)
  have "\<not> (\<forall>g\<in>set (tasks s). isDone (pc g))" using en by (metis isDone.simps(3) nth_mem)
  moreover have "sum_list (map pending (tasks s')) = sum_list (map pending (tasks s))"
    using en s' by (simp add: pending_update_same pending_update_done pending_def)
  ultimately show ?thesis using assms(1) s' by (auto simp: waitInv_def)
next
  case (Finish i)
  then obtain ok where en: "i < length (tasks s)" "pc (tasks s ! i) = G_Posted ok"
    and s': "s' = s\<lparr>tasks := (tasks s)[i := (tasks s ! i)
                        \<lparr>pc := G_Done (if ok then Replicated else Failed)\<rparr>],
                     wg := wg s - 1\<rparr>"
    using assms(2) by (auto split: if_splits gpc.splits)
  have "\<not> (\<forall>g\<in>set (tasks s). isDone (pc g))" using en by (metis isDone.simps(4) nth_mem)
  moreover have "Suc (sum_list (map pending (tasks s'))) = sum_list (map pending (tasks s))"
    using en s' by (simp add: pending_update_same pending_update_done pending_def)
  ultimately show ?thesis using assms(1) s' by (auto simp: waitInv_def)
next
  case Respond
  then show ?thesis using assms
    by (auto simp: waitInv_def split: if_splits)
next
  case (Partition b u)
  then show ?thesis using assms
    by (auto simp: waitInv_def)
qed

lemma run_append:
  "run cfg req (es1 @ es2) s =
     (case run cfg req es1 s of None \<Rightarrow> None | Some s1 \<Rightarrow> run cfg req es2 s1)"
  by (induction es1 arbitrary: s) (simp_all split: option.split)

lemma waitInv_run:
  "waitInv cfg req s \<Longrightarrow> run cfg req evs s = Some s' \<Longrightarrow> waitInv cfg req s'"
  by (induction evs arbitrary: s) (auto split: option.splits dest: waitInv_exec)


lemma pending_nonzero_undone:
  "sum_list (map pending ts) \<noteq> 0 \<Longrightarrow> \<exists>i<length ts. \<not> isDone (pc (ts ! i))"
proof -
  assume "sum_list (map pending ts) \<noteq> 0"
  then obtain g where "g \<in> set ts" "\<not> isDone (pc g)"
    by (induction ts) (auto simp: pending_def split: if_splits)
  then show ?thesis by (metis in_set_conv_nth)
qed

lemma sync_progress:
  assumes "Mode cfg = Sync" and "waitInv cfg req s" and "responded s = None"
  shows "\<exists>e. ownStep e \<and> exec cfg req e s \<noteq> None"
proof (cases "bpc s")
  case B_Loop
  show ?thesis
  proof (cases "length (tasks s) < length (Peers cfg)")
    case True
    then have "ownStep Spawn \<and> exec cfg req Spawn s \<noteq> None" using B_Loop by simp
    then show ?thesis by blast
  next
    case False
    then have "length (tasks s) = length (Peers cfg)"
      using assms(2) by (simp add: waitInv_def)
    then have "ownStep LoopExit \<and> exec cfg req LoopExit s \<noteq> None" using B_Loop by simp
    then show ?thesis by blast
  qed
next
  case B_Wait
  show ?thesis
  proof (cases "wg s = 0")
    case True
    then have "ownStep WaitReturn \<and> exec cfg req WaitReturn s \<noteq> None" using B_Wait by simp
    then show ?thesis by blast
  next
    case False
    moreover have "wg s = sum_list (map pending (tasks s))"
      using assms(2) unfolding waitInv_def by blast
    ultimately have "sum_list (map pending (tasks s)) \<noteq> 0"
      by metis
    then obtain i where i: "i < length (tasks s)" "\<not> isDone (pc (tasks s ! i))"
      using pending_nonzero_undone by blast
    show ?thesis
    proof (cases "pc (tasks s ! i)")
      case G_Check
      then have "ownStep (Check i) \<and> exec cfg req (Check i) s \<noteq> None" using i by simp
      then show ?thesis by blast
    next
      case G_Decide
      show ?thesis
      proof (cases "isBlocked (tasks s ! i)")
        case True
        then have "ownStep (Skip i) \<and> exec cfg req (Skip i) s \<noteq> None"
          using i G_Decide by simp
        then show ?thesis by blast
      next
        case False
        then have "ownStep (Post i True) \<and> exec cfg req (Post i True) s \<noteq> None"
          using i G_Decide by simp
        then show ?thesis by blast
      qed
    next
      case (G_Posted ok)
      then have "ownStep (Finish i) \<and> exec cfg req (Finish i) s \<noteq> None" using i by simp
      then show ?thesis by blast
    next
      case (G_Done out)
      then show ?thesis using i by simp
    qed
  qed
next
  case B_Returned
  then have "ownStep Respond \<and> exec cfg req Respond s \<noteq> None" using assms(3) by simp
  then show ?thesis by blast
qed

lemma gleft_update:
  assumes "i < length ts" and "gleft (pc g') < gleft (pc (ts ! i))"
  shows "sum_list (map (\<lambda>g. gleft (pc g)) (ts[i := g'])) < sum_list (map (\<lambda>g. gleft (pc g)) ts)"
  using sum_list_map_update [of i ts "\<lambda>g. gleft (pc g)" g'] assms by linarith

lemma stepsLeft_exec:
  assumes "ownStep e" and "exec cfg req e s = Some s'"
  shows "stepsLeft cfg s' < stepsLeft cfg s"
proof (cases e)
  case Spawn
  then show ?thesis using assms(2) by (auto simp: stepsLeft_def split: if_splits)
next
  case LoopExit
  then show ?thesis using assms(2) by (auto simp: stepsLeft_def split: if_splits)
next
  case WaitReturn
  then show ?thesis using assms(2) by (auto simp: stepsLeft_def split: if_splits)
next
  case (Check i)
  then have en: "i < length (tasks s)" "pc (tasks s ! i) = G_Check"
    and s': "s' = s\<lparr>tasks := (tasks s)[i := (tasks s ! i)
                  \<lparr>isBlocked := blockedAt (blocked s) (url (tasks s ! i)), pc := G_Decide\<rparr>]\<rparr>"
    using assms(2) by (auto split: if_splits)
  show ?thesis unfolding s' stepsLeft_def
    using gleft_update [of i "tasks s" "(tasks s ! i)
                  \<lparr>isBlocked := blockedAt (blocked s) (url (tasks s ! i)), pc := G_Decide\<rparr>"] en
    by simp
next
  case (Skip i)
  then have en: "i < length (tasks s)" "pc (tasks s ! i) = G_Decide"
    and s': "s' = s\<lparr>tasks := (tasks s)[i := (tasks s ! i)\<lparr>pc := G_Done Skipped\<rparr>],
                wg := wg s - 1\<rparr>"
    using assms(2) by (auto split: if_splits)
  show ?thesis unfolding s' stepsLeft_def
    using gleft_update [of i "tasks s" "(tasks s ! i)\<lparr>pc := G_Done Skipped\<rparr>"] en
    by simp
next
  case (Post i ok)
  then have en: "i < length (tasks s)" "pc (tasks s ! i) = G_Decide"
    and s': "s' = s\<lparr>tasks := (tasks s)[i := (tasks s ! i)\<lparr>pc := G_Posted ok\<rparr>],
                delivered := delivered s @ [(i, url (tasks s ! i), req)]\<rparr>"
    using assms(2) by (auto split: if_splits)
  show ?thesis unfolding s' stepsLeft_def
    using gleft_update [of i "tasks s" "(tasks s ! i)\<lparr>pc := G_Posted ok\<rparr>"] en
    by simp
next
  case (Finish i)
  then obtain ok where en: "i < length (tasks s)" "pc (tasks s ! i) = G_Posted ok"
    and s': "s' = s\<lparr>tasks := (tasks s)[i := (tasks s ! i)
                        \<lparr>pc := G_Done (if ok then Replicated else Failed)\<rparr>],
                     wg := wg s - 1\<rparr>"
    using assms(2) by (auto split: if_splits gpc.splits)
  show ?thesis unfolding s' stepsLeft_def
    using gleft_update [of i "tasks s" "(tasks s ! i)
                        \<lparr>pc := G_Done (if ok then Replicated else Failed)\<rparr>"] en
    by simp
next
  case Respond
  then show ?thesis using assms(2) by (auto simp: stepsLeft_def split: if_splits)
next
  case (Partition b u)
  then show ?thesis using assms(1) by simp
qed


lemma delivInv_init: "delivInv cfg req (init cfg)"
  by (simp add: delivInv_def init_def deliveries_def)

lemma deliveries_tasks [simp]: "deliveries j (s\<lparr>tasks := ts\<rparr>) = deliveries j s"
  by (simp add: deliveries_def)

lemma deliveries_wg [simp]: "deliveries j (s\<lparr>wg := n\<rparr>) = deliveries j s"
  by (simp add: deliveries_def)

lemma deliveries_bpc [simp]: "deliveries j (s\<lparr>bpc := b\<rparr>) = deliveries j s"
  by (simp add: deliveries_def)

lemma deliveries_blocked [simp]: "deliveries j (s\<lparr>blocked := m\<rparr>) = deliveries j s"
  by (simp add: deliveries_def)

lemma deliveries_responded [simp]: "deliveries j (s\<lparr>responded := r\<rparr>) = deliveries j s"
  by (simp add: deliveries_def)

lemma deliveries_delivered [simp]:
  "deliveries j (s\<lparr>delivered := ds @ [(i, u, r)]\<rparr>) =
     deliveries j (s\<lparr>delivered := ds\<rparr>) @ (if i = j then [(u, r)] else [])"
  by (simp add: deliveries_def)

lemma deliveries_delivered_same [simp]:
  "deliveries j (s\<lparr>delivered := delivered s0\<rparr>) = deliveries j s0"
  by (simp add: deliveries_def)

lemma delivInv_exec:
  assumes "delivInv cfg req s" and "exec cfg req e s = Some s'"
  shows "delivInv cfg req s'"
proof (cases e)
  case Spawn
  then have en: "length (tasks s) < length (Peers cfg)"
    and s': "s' = s\<lparr>wg := wg s + 1,
                tasks := tasks s @ [\<lparr>url = Peers cfg ! length (tasks s), isBlocked = False,
                                      pc = G_Check\<rparr>]\<rparr>"
    using assms(2) by (auto split: if_splits)
  have old: "deliveries i s = []" if "\<not> i < length (tasks s)" for i
    using assms(1) that by (simp add: delivInv_def)
  show ?thesis using assms(1) en unfolding s' delivInv_def
    by (auto simp: nth_append less_Suc_eq old)
next
  case LoopExit
  then show ?thesis using assms by (auto simp: delivInv_def split: if_splits)
next
  case WaitReturn
  then show ?thesis using assms by (auto simp: delivInv_def split: if_splits)
next
  case (Check i)
  then have en: "i < length (tasks s)" "pc (tasks s ! i) = G_Check"
    and s': "s' = s\<lparr>tasks := (tasks s)[i := (tasks s ! i)
                  \<lparr>isBlocked := blockedAt (blocked s) (url (tasks s ! i)), pc := G_Decide\<rparr>]\<rparr>"
    using assms(2) by (auto split: if_splits)
  show ?thesis using assms(1) en unfolding s' delivInv_def
    by (auto simp: nth_list_update)
next
  case (Skip i)
  then have en: "i < length (tasks s)" "pc (tasks s ! i) = G_Decide" "isBlocked (tasks s ! i)"
    and s': "s' = s\<lparr>tasks := (tasks s)[i := (tasks s ! i)\<lparr>pc := G_Done Skipped\<rparr>],
                wg := wg s - 1\<rparr>"
    using assms(2) by (auto split: if_splits)
  show ?thesis using assms(1) en unfolding s' delivInv_def
    by (auto simp: nth_list_update)
next
  case (Post i ok)
  then have en: "i < length (tasks s)" "pc (tasks s ! i) = G_Decide" "\<not> isBlocked (tasks s ! i)"
    and s': "s' = s\<lparr>tasks := (tasks s)[i := (tasks s ! i)\<lparr>pc := G_Posted ok\<rparr>],
                delivered := delivered s @ [(i, url (tasks s ! i), req)]\<rparr>"
    using assms(2) by (auto split: if_splits)
  show ?thesis using assms(1) en unfolding s' delivInv_def
    by (auto simp: nth_list_update)
next
  case (Finish i)
  then obtain ok where en: "i < length (tasks s)" "pc (tasks s ! i) = G_Posted ok"
    and s': "s' = s\<lparr>tasks := (tasks s)[i := (tasks s ! i)
                        \<lparr>pc := G_Done (if ok then Replicated else Failed)\<rparr>],
                     wg := wg s - 1\<rparr>"
    using assms(2) by (auto split: if_splits gpc.splits)
  show ?thesis using assms(1) en unfolding s' delivInv_def
    by (auto simp: nth_list_update)
next
  case Respond
  then show ?thesis using assms by (auto simp: delivInv_def split: if_splits)
next
  case (Partition b u)
  then show ?thesis using assms by (auto simp: delivInv_def)
qed

lemma delivInv_run:
  "delivInv cfg req s \<Longrightarrow> run cfg req evs s = Some s' \<Longrightarrow> delivInv cfg req s'"
  by (induction evs arbitrary: s) (auto split: option.splits dest: delivInv_exec)

lemma checked_stable_exec:
  assumes "exec cfg req e s = Some s'" and "i < length (tasks s)" and "pc (tasks s ! i) \<noteq> G_Check"
  shows "i < length (tasks s') \<and> pc (tasks s' ! i) \<noteq> G_Check \<and>
         isBlocked (tasks s' ! i) = isBlocked (tasks s ! i)"
  using assms
  by (cases e) (auto simp: nth_list_update nth_append split: if_splits gpc.splits)

lemma checked_stable_run:
  assumes "run cfg req evs s = Some s'" and "i < length (tasks s)" and "pc (tasks s ! i) \<noteq> G_Check"
  shows "i < length (tasks s') \<and> pc (tasks s' ! i) \<noteq> G_Check \<and>
         isBlocked (tasks s' ! i) = isBlocked (tasks s ! i)"
  using assms
proof (induction evs arbitrary: s)
  case Nil
  then show ?case by simp
next
  case (Cons e evs)
  then obtain s1 where e: "exec cfg req e s = Some s1" and r: "run cfg req evs s1 = Some s'"
    by (auto split: option.splits)
  from checked_stable_exec [OF e Cons.prems(2,3)] Cons.IH [OF r] show ?case by simp
qed


lemma sync_completes:
  assumes "Mode cfg = Sync" and "waitInv cfg req s"
  shows "\<exists>evs' s'. list_all ownStep evs' \<and> run cfg req evs' s = Some s' \<and> responded s' \<noteq> None"
  using assms(2)
proof (induction "stepsLeft cfg s" arbitrary: s rule: less_induct)
  case less
  show ?case
  proof (cases "responded s = None")
    case False
    then have "list_all ownStep [] \<and> run cfg req [] s = Some s \<and> responded s \<noteq> None" by simp
    then show ?thesis by blast
  next
    case True
    from sync_progress [OF assms(1) less.prems True]
    obtain e s1 where e: "ownStep e" "exec cfg req e s = Some s1" by auto
    have "stepsLeft cfg s1 < stepsLeft cfg s" using e by (rule stepsLeft_exec)
    moreover have "waitInv cfg req s1" using less.prems e(2) by (rule waitInv_exec)
    ultimately obtain evs' s' where
      r: "list_all ownStep evs'" "run cfg req evs' s1 = Some s'" "responded s' \<noteq> None"
      using less.hyps by blast
    then have "list_all ownStep (e # evs') \<and> run cfg req (e # evs') s = Some s' \<and>
               responded s' \<noteq> None"
      using e by simp
    then show ?thesis by blast
  qed
qed

text \<open>
  C3. In sync mode, in every state that an interleaving of the steps can reach from the
  start of the broadcast: if \<open>broadcastReplication\<close> has returned, a goroutine was
  started for every entry of \<open>Peers\<close> and each of them has finished (it skipped its peer,
  or its delivery succeeded or failed); \<open>handlePut\<close> has written its response only after
  that return, and the response is status 200 with \<open>ok\<close>. No outcome holds the write up:
  while no response is written, a step of the write can be taken; every such step lowers
  \<open>stepsLeft\<close>, so only finitely many can be taken; and from the state some schedule of
  the write's own steps ends with the response \<open>ok\<close>.
\<close>

theorem sync_broadcast_waits_for_every_peer:
  assumes "Mode cfg = Sync" and "run cfg req evs (init cfg) = Some s"
  shows "(bpc s = B_Returned \<longrightarrow>
            length (tasks s) = length (Peers cfg) \<and>
            (\<forall>i<length (Peers cfg). url (tasks s ! i) = Peers cfg ! i \<and> isDone (pc (tasks s ! i)))) \<and>
         (\<forall>resp. responded s = Some resp \<longrightarrow>
            bpc s = B_Returned \<and>
            resp = respondJSON StatusOK (PutResponse ''ok'' Sync (ReqID req))) \<and>
         (responded s = None \<longrightarrow> (\<exists>e. ownStep e \<and> exec cfg req e s \<noteq> None)) \<and>
         (\<forall>e s'. ownStep e \<and> exec cfg req e s = Some s' \<longrightarrow> stepsLeft cfg s' < stepsLeft cfg s) \<and>
         (\<exists>evs' s'. list_all ownStep evs' \<and> run cfg req evs' s = Some s' \<and>
            responded s' = Some (respondJSON StatusOK (PutResponse ''ok'' Sync (ReqID req))))"
proof -
  have w: "waitInv cfg req s"
    using waitInv_init assms(2) by (rule waitInv_run)
  have d: "delivInv cfg req s"
    using delivInv_init assms(2) by (rule delivInv_run)
  have neq: "Sync \<noteq> Async" by (simp add: Sync_def Async_def)
  have returned: "length (tasks s) = length (Peers cfg) \<and>
      (\<forall>i<length (Peers cfg). url (tasks s ! i) = Peers cfg ! i \<and> isDone (pc (tasks s ! i)))"
    if "bpc s = B_Returned"
    using w d that assms(1) by (simp add: waitInv_def delivInv_def)
  have answered: "bpc s = B_Returned \<and>
      resp = respondJSON StatusOK (PutResponse ''ok'' Sync (ReqID req))"
    if "responded s = Some resp" for resp
    using w that assms(1) neq by (simp add: waitInv_def)
  have progress: "\<exists>e. ownStep e \<and> exec cfg req e s \<noteq> None" if "responded s = None"
    using assms(1) w that by (rule sync_progress)
  have fewer: "stepsLeft cfg s' < stepsLeft cfg s"
    if "ownStep e \<and> exec cfg req e s = Some s'" for e s'
    using that stepsLeft_exec by blast
  obtain evs' s' where
    c: "list_all ownStep evs'" "run cfg req evs' s = Some s'" "responded s' \<noteq> None"
    using sync_completes [OF assms(1) w] by blast
  have "waitInv cfg req s'" using w c(2) by (rule waitInv_run)
  then have "responded s' = Some (respondJSON StatusOK (PutResponse ''ok'' Sync (ReqID req)))"
    using c(3) assms(1) by (auto simp: waitInv_def)
  with c have complete: "\<exists>evs' s'. list_all ownStep evs' \<and> run cfg req evs' s = Some s' \<and>
            responded s' = Some (respondJSON StatusOK (PutResponse ''ok'' Sync (ReqID req)))"
    by blast
  show ?thesis using returned answered progress fewer complete by blast
qed

theorem sync_broadcast_waits_for_every_peer_witness:
  "\<exists>s. run demoCfg demoReq
          [Spawn, Check 0, Spawn, Skip 0, Check 1, LoopExit, Post 1 False, Finish 1,
           WaitReturn, Respond] (init demoCfg) = Some s \<and>
        map pc (tasks s) = [G_Done Skipped, G_Done Failed] \<and>
        bpc s = B_Returned \<and>
        responded s = Some (respondJSON StatusOK (PutResponse ''ok'' Sync ''r1''))"
proof -
  let ?evs = "[Spawn, Check 0, Spawn, Skip 0, Check 1, LoopExit, Post 1 False, Finish 1,
               WaitReturn, Respond]"
  define s where "s = the (run demoCfg demoReq ?evs (init demoCfg))"
  have m: "Mode demoCfg = Sync" by (simp add: demoCfg_def)
  have r: "run demoCfg demoReq ?evs (init demoCfg) = Some s"
    unfolding s_def by (simp add: demoCfg_def init_def blockedAt_def)
  have t: "map pc (tasks s) = [G_Done Skipped, G_Done Failed]" "bpc s = B_Returned"
    "responded s \<noteq> None"
    unfolding s_def by (simp_all add: demoCfg_def init_def blockedAt_def)
  from sync_broadcast_waits_for_every_peer [OF m r] t(3)
  have "responded s = Some (respondJSON StatusOK (PutResponse ''ok'' Sync (ReqID demoReq)))"
    by auto
  then show ?thesis using r t by (simp add: demoReq_def)
qed

text \<open>
  From the check of a goroutine on: what it read decides whether it calls
  \<open>PostReplicate\<close>.
\<close>

lemma delivered_after_check:
  assumes "run cfg req evs1 (init cfg) = Some s1"
    and "exec cfg req (Check i) s1 = Some s2"
    and "run cfg req evs2 s2 = Some s"
  shows "i < length (Peers cfg) \<and> url (tasks s1 ! i) = Peers cfg ! i \<and> deliveries i s1 = [] \<and>
         (blockedAt (blocked s1) (Peers cfg ! i) \<longrightarrow> deliveries i s = []) \<and>
         (\<not> blockedAt (blocked s1) (Peers cfg ! i) \<longrightarrow>
            (deliveries i s = [] \<or> deliveries i s = [(Peers cfg ! i, req)]) \<and>
            (isDone (pc (tasks s ! i)) \<longrightarrow> deliveries i s = [(Peers cfg ! i, req)]))"
proof -
  have d1: "delivInv cfg req s1"
    using delivInv_init assms(1) by (rule delivInv_run)
  have en: "i < length (tasks s1)" "pc (tasks s1 ! i) = G_Check"
    and s2: "s2 = s1\<lparr>tasks := (tasks s1)[i := (tasks s1 ! i)
                  \<lparr>isBlocked := blockedAt (blocked s1) (url (tasks s1 ! i)), pc := G_Decide\<rparr>]\<rparr>"
    using assms(2) by (auto split: if_splits)
  have u: "url (tasks s1 ! i) = Peers cfg ! i" and len: "i < length (Peers cfg)"
    and none: "deliveries i s1 = []"
    using d1 en by (auto simp: delivInv_def)
  have c2: "i < length (tasks s2)" "pc (tasks s2 ! i) \<noteq> G_Check"
    "isBlocked (tasks s2 ! i) = blockedAt (blocked s1) (Peers cfg ! i)"
    using en u by (simp_all add: s2)
  from checked_stable_run [OF assms(3) c2(1,2)] c2(3)
  have c: "i < length (tasks s)" "pc (tasks s ! i) \<noteq> G_Check"
    "isBlocked (tasks s ! i) = blockedAt (blocked s1) (Peers cfg ! i)"
    by simp_all
  have "delivInv cfg req s2" using d1 assms(2) by (rule delivInv_exec)
  then have d: "delivInv cfg req s" using assms(3) by (rule delivInv_run)
  then have del: "deliveries i s =
      (if attempted (pc (tasks s ! i)) then [(Peers cfg ! i, req)] else [])"
    and att: "attempted (pc (tasks s ! i)) \<longrightarrow> \<not> isBlocked (tasks s ! i)"
    and skp: "pc (tasks s ! i) = G_Done Skipped \<longrightarrow> isBlocked (tasks s ! i)"
    using c(1) by (simp_all add: delivInv_def)
  have blocked_none: "deliveries i s = []" if "blockedAt (blocked s1) (Peers cfg ! i)"
    using that del att c(3) by simp
  have done_once: "deliveries i s = [(Peers cfg ! i, req)]"
    if "\<not> blockedAt (blocked s1) (Peers cfg ! i)" "isDone (pc (tasks s ! i))"
  proof -
    from that(2) obtain out where out: "pc (tasks s ! i) = G_Done out"
      by (cases "pc (tasks s ! i)") simp_all
    then have "out \<noteq> Skipped" using skp that(1) c(3) by auto
    then show ?thesis using del out by simp
  qed
  have most_once: "deliveries i s = [] \<or> deliveries i s = [(Peers cfg ! i, req)]"
    using del by simp
  show ?thesis using len u none blocked_none done_once most_once by blast
qed

lemma goroutine_step_enabled:
  assumes "i < length (tasks s)" and "\<not> isDone (pc (tasks s ! i))"
  shows "\<exists>e. ownStep e \<and> exec cfg req e s \<noteq> None"
proof (cases "pc (tasks s ! i)")
  case G_Check
  then have "ownStep (Check i) \<and> exec cfg req (Check i) s \<noteq> None" using assms by simp
  then show ?thesis by blast
next
  case G_Decide
  show ?thesis
  proof (cases "isBlocked (tasks s ! i)")
    case True
    then have "ownStep (Skip i) \<and> exec cfg req (Skip i) s \<noteq> None"
      using assms G_Decide by simp
    then show ?thesis by blast
  next
    case False
    then have "ownStep (Post i True) \<and> exec cfg req (Post i True) s \<noteq> None"
      using assms G_Decide by simp
    then show ?thesis by blast
  qed
next
  case (G_Posted ok)
  then have "ownStep (Finish i) \<and> exec cfg req (Finish i) s \<noteq> None" using assms by simp
  then show ?thesis by blast
next
  case (G_Done out)
  then show ?thesis using assms by simp
qed

lemma goroutines_complete:
  assumes "waitInv cfg req s"
  shows "\<exists>evs' s'. list_all ownStep evs' \<and> run cfg req evs' s = Some s' \<and>
           length (tasks s') = length (Peers cfg) \<and>
           (\<forall>i<length (Peers cfg). isDone (pc (tasks s' ! i)))"
  using assms
proof (induction "stepsLeft cfg s" arbitrary: s rule: less_induct)
  case less
  have le: "length (tasks s) \<le> length (Peers cfg)"
    and left: "bpc s \<noteq> B_Loop \<longrightarrow> length (tasks s) = length (Peers cfg)"
    using less.prems unfolding waitInv_def by blast+
  show ?case
  proof (cases "length (tasks s) = length (Peers cfg) \<and>
                (\<forall>i<length (Peers cfg). isDone (pc (tasks s ! i)))")
    case True
    then have "list_all ownStep [] \<and> run cfg req [] s = Some s \<and>
        length (tasks s) = length (Peers cfg) \<and>
        (\<forall>i<length (Peers cfg). isDone (pc (tasks s ! i)))" by simp
    then show ?thesis by blast
  next
    case False
    have "\<exists>e. ownStep e \<and> exec cfg req e s \<noteq> None"
    proof (cases "length (tasks s) = length (Peers cfg)")
      case True
      with False obtain i where "i < length (tasks s)" "\<not> isDone (pc (tasks s ! i))" by auto
      then show ?thesis by (rule goroutine_step_enabled)
    next
      case short: False
      then have "bpc s = B_Loop" "length (tasks s) < length (Peers cfg)"
        using le left by auto
      then have "ownStep Spawn \<and> exec cfg req Spawn s \<noteq> None" by simp
      then show ?thesis by blast
    qed
    then obtain e s1 where e: "ownStep e" "exec cfg req e s = Some s1" by auto
    have "stepsLeft cfg s1 < stepsLeft cfg s" using e by (rule stepsLeft_exec)
    moreover have "waitInv cfg req s1" using less.prems e(2) by (rule waitInv_exec)
    ultimately obtain evs' s' where
      r: "list_all ownStep evs'" "run cfg req evs' s1 = Some s'"
         "length (tasks s') = length (Peers cfg)"
         "\<forall>i<length (Peers cfg). isDone (pc (tasks s' ! i))"
      using less.hyps by blast
    then have "list_all ownStep (e # evs') \<and> run cfg req (e # evs') s = Some s' \<and>
        length (tasks s') = length (Peers cfg) \<and>
        (\<forall>i<length (Peers cfg). isDone (pc (tasks s' ! i)))"
      using e by simp
    then show ?thesis by blast
  qed
qed

lemma first_after_check:
  assumes "exec cfg req e s0 = Some s" and "i < length (tasks s)" and "pc (tasks s ! i) \<noteq> G_Check"
    and "\<not> (i < length (tasks s0) \<and> pc (tasks s0 ! i) \<noteq> G_Check)"
  shows "e = Check i"
  using assms
  by (cases e) (auto simp: nth_list_update nth_append split: if_splits gpc.splits)

lemma check_in_history:
  assumes "run cfg req evs (init cfg) = Some s" and "i < length (tasks s)"
    and "pc (tasks s ! i) \<noteq> G_Check"
  shows "\<exists>evs1 evs2. evs = evs1 @ Check i # evs2"
  using assms
proof (induction evs arbitrary: s rule: rev_induct)
  case Nil
  then show ?case by (auto simp: init_def)
next
  case (snoc e evs)
  from snoc.prems(1) obtain s0 where
    r0: "run cfg req evs (init cfg) = Some s0" and e: "exec cfg req e s0 = Some s"
    by (auto simp: run_append split: option.splits)
  show ?case
  proof (cases "i < length (tasks s0) \<and> pc (tasks s0 ! i) \<noteq> G_Check")
    case True
    with snoc.IH [OF r0] obtain evs1 evs2 where "evs = evs1 @ Check i # evs2" by blast
    then have "evs @ [e] = evs1 @ Check i # (evs2 @ [e])" by simp
    then show ?thesis by blast
  next
    case False
    from first_after_check [OF e snoc.prems(2,3) False]
    have "evs @ [e] = evs @ Check i # []" by simp
    then show ?thesis by blast
  qed
qed


text \<open>
  C6. In every state \<open>s\<close> that an interleaving \<open>evs\<close> of the steps reaches from the start
  of the broadcast: once the loop is left, a goroutine has been started for every entry
  of \<open>Peers\<close>, goroutine \<open>i\<close> for entry \<open>i\<close>; some schedule of the write's own steps leads
  on to a state where the goroutine of every entry has finished; a goroutine that has not
  made its check has not called \<open>PostReplicate\<close>, and one that is past its check made it at
  some point of \<open>evs\<close>. For the state \<open>s1\<close> in which goroutine \<open>i\<close> makes its check: if
  \<open>BlockPeers\<close> marks its peer blocked in \<open>s1\<close>, the goroutine never calls
  \<open>PostReplicate\<close>, whatever happens later to \<open>BlockPeers\<close>; if it does not, the goroutine
  calls \<open>PostReplicate\<close> at most once, with the peer's address and the request of the
  broadcast, and once it has finished it has called it exactly once.
\<close>

theorem broadcast_delivers_once_unless_blocked:
  assumes "run cfg req evs (init cfg) = Some s"
  shows "(bpc s \<noteq> B_Loop \<longrightarrow> length (tasks s) = length (Peers cfg)) \<and>
         (\<forall>i<length (tasks s). i < length (Peers cfg) \<and> url (tasks s ! i) = Peers cfg ! i) \<and>
         (\<exists>evs' s'. list_all ownStep evs' \<and> run cfg req evs' s = Some s' \<and>
            length (tasks s') = length (Peers cfg) \<and>
            (\<forall>i<length (Peers cfg). isDone (pc (tasks s' ! i)))) \<and>
         (\<forall>i. \<not> (i < length (tasks s) \<and> pc (tasks s ! i) \<noteq> G_Check) \<longrightarrow> deliveries i s = []) \<and>
         (\<forall>i<length (tasks s). pc (tasks s ! i) \<noteq> G_Check \<longrightarrow>
            (\<exists>evs1 evs2 s1. evs = evs1 @ Check i # evs2 \<and>
               run cfg req evs1 (init cfg) = Some s1)) \<and>
         (\<forall>i evs1 evs2 s1.
            evs = evs1 @ Check i # evs2 \<and> run cfg req evs1 (init cfg) = Some s1 \<longrightarrow>
            i < length (Peers cfg) \<and> url (tasks s1 ! i) = Peers cfg ! i \<and> deliveries i s1 = [] \<and>
            (blockedAt (blocked s1) (Peers cfg ! i) \<longrightarrow> deliveries i s = []) \<and>
            (\<not> blockedAt (blocked s1) (Peers cfg ! i) \<longrightarrow>
               (deliveries i s = [] \<or> deliveries i s = [(Peers cfg ! i, req)]) \<and>
               (isDone (pc (tasks s ! i)) \<longrightarrow> deliveries i s = [(Peers cfg ! i, req)])))"
proof -
  have w: "waitInv cfg req s"
    using waitInv_init assms by (rule waitInv_run)
  have d: "delivInv cfg req s"
    using delivInv_init assms by (rule delivInv_run)
  have covered: "bpc s \<noteq> B_Loop \<longrightarrow> length (tasks s) = length (Peers cfg)"
    using w unfolding waitInv_def by blast
  have entries: "\<forall>i<length (tasks s). i < length (Peers cfg) \<and> url (tasks s ! i) = Peers cfg ! i"
    using d by (auto simp: delivInv_def)
  have complete: "\<exists>evs' s'. list_all ownStep evs' \<and> run cfg req evs' s = Some s' \<and>
            length (tasks s') = length (Peers cfg) \<and>
            (\<forall>i<length (Peers cfg). isDone (pc (tasks s' ! i)))"
    using w by (rule goroutines_complete)
  have before: "deliveries i s = []"
    if "\<not> (i < length (tasks s) \<and> pc (tasks s ! i) \<noteq> G_Check)" for i
    using d that by (auto simp: delivInv_def)
  have checked: "\<exists>evs1 evs2 s1. evs = evs1 @ Check i # evs2 \<and>
               run cfg req evs1 (init cfg) = Some s1"
    if "i < length (tasks s)" "pc (tasks s ! i) \<noteq> G_Check" for i
  proof -
    from check_in_history [OF assms that] obtain evs1 evs2 where
      sp: "evs = evs1 @ Check i # evs2" by blast
    with assms obtain s1 where "run cfg req evs1 (init cfg) = Some s1"
      by (auto simp: run_append split: option.splits)
    with sp show ?thesis by blast
  qed
  have after: "i < length (Peers cfg) \<and> url (tasks s1 ! i) = Peers cfg ! i \<and> deliveries i s1 = [] \<and>
            (blockedAt (blocked s1) (Peers cfg ! i) \<longrightarrow> deliveries i s = []) \<and>
            (\<not> blockedAt (blocked s1) (Peers cfg ! i) \<longrightarrow>
               (deliveries i s = [] \<or> deliveries i s = [(Peers cfg ! i, req)]) \<and>
               (isDone (pc (tasks s ! i)) \<longrightarrow> deliveries i s = [(Peers cfg ! i, req)]))"
    if "evs = evs1 @ Check i # evs2 \<and> run cfg req evs1 (init cfg) = Some s1" for i evs1 evs2 s1
  proof -
    from that assms have "run cfg req (Check i # evs2) s1 = Some s"
      by (simp add: run_append)
    then obtain s2 where "exec cfg req (Check i) s1 = Some s2" "run cfg req evs2 s2 = Some s"
      by (auto split: option.splits)
    with that show ?thesis
      using delivered_after_check [of cfg req evs1 s1 i s2 evs2 s] by blast
  qed
  show ?thesis using covered entries complete before checked after by blast
qed

theorem broadcast_delivers_once_unless_blocked_witness:
  "\<exists>s. run demoCfg demoReq
          [Spawn, Check 0, Partition [] ''http://f1:8081'', Spawn, Check 1, Skip 0,
           Post 1 True, Finish 1, LoopExit, WaitReturn, Respond] (init demoCfg) = Some s \<and>
        length (tasks s) = length (Peers demoCfg) \<and>
        deliveries 0 s = [] \<and>
        deliveries 1 s = [(''http://f2:8082'', demoReq)] \<and>
        blocked s ''http://f1:8081'' = None"
proof -
  let ?a = "[Spawn]"
  let ?b = "[Partition [] ''http://f1:8081'', Spawn]"
  let ?c = "[Skip 0, Post 1 True, Finish 1, LoopExit, WaitReturn, Respond]"
  let ?evs = "[Spawn, Check 0, Partition [] ''http://f1:8081'', Spawn, Check 1, Skip 0,
           Post 1 True, Finish 1, LoopExit, WaitReturn, Respond]"
  define s1 where "s1 = the (run demoCfg demoReq ?a (init demoCfg))"
  define s3 where "s3 = the (run demoCfg demoReq (?a @ Check 0 # ?b) (init demoCfg))"
  define s where "s = the (run demoCfg demoReq ?evs (init demoCfg))"
  note defs = demoCfg_def init_def blockedAt_def handlePartition_def Let_def MethodPost_def
  have r1: "run demoCfg demoReq ?a (init demoCfg) = Some s1"
    unfolding s1_def by (simp add: defs)
  have r3: "run demoCfg demoReq (?a @ Check 0 # ?b) (init demoCfg) = Some s3"
    unfolding s3_def by (simp add: defs)
  have r: "run demoCfg demoReq ?evs (init demoCfg) = Some s"
    unfolding s_def by (simp add: defs)
  have sp0: "?evs = ?a @ Check 0 # (?b @ Check 1 # ?c)" by simp
  have sp1: "?evs = (?a @ Check 0 # ?b) @ Check 1 # ?c" by simp
  have b1: "blockedAt (blocked s1) (Peers demoCfg ! 0)"
    unfolding s1_def by (simp add: defs)
  have b2: "\<not> blockedAt (blocked s3) (Peers demoCfg ! 1)"
    unfolding s3_def by (simp add: defs)
  have fin: "isDone (pc (tasks s ! 1))" "blocked s ''http://f1:8081'' = None" "bpc s \<noteq> B_Loop"
    unfolding s_def by (simp_all add: defs)
  note inst = broadcast_delivers_once_unless_blocked [OF r]
  from inst fin(3) have len: "length (tasks s) = length (Peers demoCfg)" by blast
  from inst sp0 r1 b1 have "deliveries 0 s = []" by blast
  moreover from inst sp1 r3 b2 fin(1)
  have "deliveries 1 s = [(Peers demoCfg ! 1, demoReq)]" by blast
  then have "deliveries 1 s = [(''http://f2:8082'', demoReq)]" by (simp add: demoCfg_def)
  ultimately show ?thesis using r fin(2) len by simp
qed

end
